theory Spec2Isabelle
  imports Main "HOL-Library.Word" "HOL-Library.List_Lexorder" "HOL-Library.AList"
    "HOL-Library.Signed_Division"
begin

section \<open>The value model: Go types and Go values\<close>

text \<open>
  The package works on Go values through \<^verbatim>\<open>reflect\<close>. The model keeps what the code
  asks of a value: its dynamic type, its kind, and its content.

  \<^item> A Go string and a byte slice are lists of bytes; \<^verbatim>\<open>sort.Strings\<close> and \<^verbatim>\<open><\<close> on
    strings compare byte-wise, which is the lexicographic order on \<open>8 word list\<close>.
  \<^item> \<^verbatim>\<open>int\<close> is 64 bits wide (\<^verbatim>\<open>validate64bit\<close> refuses every other architecture).
  \<^item> A \<^verbatim>\<open>float64\<close> is its IEEE-754 bit pattern, which is what \<^verbatim>\<open>binary.Write\<close> emits.
  \<^item> A \<^verbatim>\<open>time.Time\<close> is the instant it denotes: seconds since the Unix epoch and the
    nanoseconds within that second. Location and monotonic reading are not modelled.
  \<^item> A map value lists its entries in the order \<^verbatim>\<open>MapKeys\<close> / \<^verbatim>\<open>range\<close> would produce
    them; Go leaves that order unspecified, so every order is a possible input.
  \<^item> Named (defined) types other than structs and \<^verbatim>\<open>time.Time\<close>, embedded struct fields,
    and cyclic values are outside the model. Struct field names are ASCII identifiers.
\<close>

type_synonym byte = "8 word"
type_synonym bytes = "byte list"

datatype rtype =
    TFloat64 | TString | TBool | TTime | TInt32 | TInt64 | TInt | TUint8
  | TAny
  | TSlice rtype
  | TMap rtype rtype
  | TStruct "(bytes \<times> rtype) list"
  | TPtr rtype
  | TOther nat

datatype rkind =
    KFloat64 | KString | KBool | KStruct | KInt32 | KInt64 | KInt | KUint8
  | KInterface | KSlice | KMap | KPointer | KOther

text \<open>\<^verbatim>\<open>rtype.Kind()\<close>. \<^verbatim>\<open>time.Time\<close> is a struct type.\<close>

fun kind_of :: "rtype \<Rightarrow> rkind" where
  "kind_of TFloat64 = KFloat64"
| "kind_of TString = KString"
| "kind_of TBool = KBool"
| "kind_of TTime = KStruct"
| "kind_of TInt32 = KInt32"
| "kind_of TInt64 = KInt64"
| "kind_of TInt = KInt"
| "kind_of TUint8 = KUint8"
| "kind_of TAny = KInterface"
| "kind_of (TSlice _) = KSlice"
| "kind_of (TMap _ _) = KMap"
| "kind_of (TStruct _) = KStruct"
| "kind_of (TPtr _) = KPointer"
| "kind_of (TOther _) = KOther"

text \<open>
  A value carries the static types a container was declared with, so that
  \<^verbatim>\<open>reflect.TypeOf\<close> can be answered. \<open>VNil\<close> is the nil interface value (and the
  invalid \<^verbatim>\<open>reflect.Value\<close>); \<open>VMapNil\<close>, \<open>VSliceNil\<close>, \<open>VBytesNil\<close> and \<open>VPtrNil\<close> are the
  typed nil map, slice, byte slice and pointer. A struct value holds its field
  declarations and its field values by position. \<open>VOther t\<close> is a value of a type \<open>t\<close>
  that the package has no case for (\<^verbatim>\<open>uint8\<close>, \<^verbatim>\<open>float32\<close>, a channel ...); its content is
  never looked at.
\<close>

datatype gval =
    VFloat64 "64 word"
  | VString bytes
  | VBytes bytes
  | VBytesNil
  | VBool bool
  | VTime int int
  | VInt32 "32 word"
  | VInt64 "64 word"
  | VInt "64 word"
  | VMap rtype rtype "(bytes \<times> gval) list"
  | VMapNil rtype rtype
  | VStruct "(bytes \<times> rtype) list" "gval list"
  | VSlice rtype "gval list"
  | VSliceNil rtype
  | VPtr rtype gval
  | VPtrNil rtype
  | VNil
  | VOther rtype

text \<open>\<^verbatim>\<open>reflect.TypeOf\<close> of a non-nil interface value.\<close>

fun type_of :: "gval \<Rightarrow> rtype" where
  "type_of (VFloat64 _) = TFloat64"
| "type_of (VString _) = TString"
| "type_of (VBytes _) = TSlice TUint8"
| "type_of VBytesNil = TSlice TUint8"
| "type_of (VBool _) = TBool"
| "type_of (VTime _ _) = TTime"
| "type_of (VInt32 _) = TInt32"
| "type_of (VInt64 _) = TInt64"
| "type_of (VInt _) = TInt"
| "type_of (VMap kt et _) = TMap kt et"
| "type_of (VMapNil kt et) = TMap kt et"
| "type_of (VStruct fts _) = TStruct fts"
| "type_of (VSlice et _) = TSlice et"
| "type_of (VSliceNil et) = TSlice et"
| "type_of (VPtr t _) = TPtr t"
| "type_of (VPtrNil t) = TPtr t"
| "type_of VNil = TAny"
| "type_of (VOther t) = t"

section \<open>Element types and errors\<close>

type_synonym etype = byte

abbreviation kEtypeDone :: etype where "kEtypeDone \<equiv> 0x00"
abbreviation kEtypeDouble :: etype where "kEtypeDouble \<equiv> 0x01"
abbreviation kEtypeString :: etype where "kEtypeString \<equiv> 0x02"
abbreviation kEtypeDocument :: etype where "kEtypeDocument \<equiv> 0x03"
abbreviation kEtypeArray :: etype where "kEtypeArray \<equiv> 0x04"
abbreviation kEtypeBinary :: etype where "kEtypeBinary \<equiv> 0x05"
abbreviation kEtypeBoolean :: etype where "kEtypeBoolean \<equiv> 0x08"
abbreviation kEtypeUtcDatetime :: etype where "kEtypeUtcDatetime \<equiv> 0x09"
abbreviation kEtypeInt32 :: etype where "kEtypeInt32 \<equiv> 0x10"
abbreviation kEtypeInt64 :: etype where "kEtypeInt64 \<equiv> 0x12"

abbreviation kBinarySubtype :: byte where "kBinarySubtype \<equiv> 0"
abbreviation kNullTerminator :: byte where "kNullTerminator \<equiv> 0"

definition MaxInt32 :: nat where
  "MaxInt32 = 2147483647"

text \<open>
  The code reports errors as formatted messages; the model has one constructor for
  each message, and one for each wrapper (\<^verbatim>\<open>"key %v: %w"\<close>, \<^verbatim>\<open>"field {%v}: %w"\<close>,
  \<^verbatim>\<open>"ezbson.Marshal: %w"\<close>, \<^verbatim>\<open>"ezbson.Unmarshal: %w"\<close>, \<^verbatim>\<open>"readBoolean: %w"\<close>).
\<close>

datatype error =
    UnsupportedType
  | ByteSliceTooBig nat
  | StringTooLong nat
  | BufferTooBig nat
  | NullInEname bytes
  | OnlyMapString
  | UnableToSerialize
  | TopLevelNotMapOrStruct
  | PtrMustBePointer
  | EOF
  | UnexpectedEOF
  | ShortRead nat nat
  | ExpectedNullTerminator
  | UnexpectedBoolean byte
  | SizeMismatch "32 word" int
  | FieldNotFound bytes
  | CannotConvert etype rtype
  | CannotConvertInt64
  | CannotDeserializeDocument bytes rtype
  | CannotDeserializeSlice bytes rtype
  | UnsupportedEtype etype
  | UnsupportedEtypeField bytes etype
  | UnsupportedTarget rtype
  | DidNotConsumeAll int nat
  | InKey bytes error
  | InField bytes error
  | InReadBoolean error
  | InMarshal error
  | InUnmarshal error

text \<open>
  A call of the encoder returns a buffer and no error, or a buffer and an error, or
  panics. A call of the decoder returns its results, or an error, or panics; the
  decoder's recursion is bounded by fuel, and \<open>OutOfFuel\<close> is the answer of a call that
  was given too little.
\<close>

datatype eresult = Done bytes | Fail bytes error | EPanic

datatype 'a result = Ok 'a | Err error | Panic | OutOfFuel

section \<open>Binary primitives\<close>

text \<open>
  \<^verbatim>\<open>binary.Write(buffer, binary.LittleEndian, val)\<close> for the fixed-width integers:
  the least significant byte first. Writing to a \<^verbatim>\<open>bytes.Buffer\<close> never fails, so the
  conversions have no error result.
\<close>

unbundle bit_operations_syntax

fun toLittleEndian :: "nat \<Rightarrow> 'a::len word \<Rightarrow> bytes" where
  "toLittleEndian 0 val = []"
| "toLittleEndian (Suc n) val = ucast val # toLittleEndian n (drop_bit 8 val)"

definition convertInt32ToBytes :: "32 word \<Rightarrow> bytes" where
  "convertInt32ToBytes val = toLittleEndian 4 val"

definition convertInt64ToBytes :: "64 word \<Rightarrow> bytes" where
  "convertInt64ToBytes val = toLittleEndian 8 val"

definition convertFloat64ToBytes :: "64 word \<Rightarrow> bytes" where
  "convertFloat64ToBytes val = convertInt64ToBytes val"

text \<open>\<^verbatim>\<open>binary.Read\<close> of a little-endian integer from the bytes it was given.\<close>

fun fromLittleEndian :: "bytes \<Rightarrow> 'a::len word" where
  "fromLittleEndian [] = 0"
| "fromLittleEndian (b # bs) = ucast b OR push_bit 8 (fromLittleEndian bs)"

definition appendInt32 :: "bytes \<Rightarrow> 32 word \<Rightarrow> bytes" where
  "appendInt32 buffer val = buffer @ convertInt32ToBytes val"

definition appendInt64 :: "bytes \<Rightarrow> 64 word \<Rightarrow> bytes" where
  "appendInt64 buffer val = buffer @ convertInt64ToBytes val"

definition appendFloat64 :: "bytes \<Rightarrow> 64 word \<Rightarrow> bytes" where
  "appendFloat64 buffer val = buffer @ convertFloat64ToBytes val"

definition appendBoolean :: "bytes \<Rightarrow> bool \<Rightarrow> bytes" where
  "appendBoolean buffer val = (if val then buffer @ [1] else buffer @ [0])"

section \<open>The encoder\<close>

text \<open>\<^verbatim>\<open>getEtype\<close>: pointers are followed first; the type switch on the exact Go type
  comes before the switch on the kind. \<^verbatim>\<open>reflect.TypeOf(nil)\<close> is nil, and calling
  \<^verbatim>\<open>Kind\<close> on it panics; \<^verbatim>\<open>Elem().Interface()\<close> of a nil pointer panics as well.\<close>

fun getEtype :: "gval \<Rightarrow> etype result" where
  "getEtype VNil = Panic"
| "getEtype (VPtr _ v) = getEtype v"
| "getEtype (VPtrNil _) = Panic"
| "getEtype (VFloat64 _) = Ok kEtypeDouble"
| "getEtype (VString _) = Ok kEtypeString"
| "getEtype (VBytes _) = Ok kEtypeBinary"
| "getEtype VBytesNil = Ok kEtypeBinary"
| "getEtype (VBool _) = Ok kEtypeBoolean"
| "getEtype (VTime _ _) = Ok kEtypeUtcDatetime"
| "getEtype (VInt32 _) = Ok kEtypeInt32"
| "getEtype (VInt _) = Ok kEtypeInt64"
| "getEtype (VInt64 _) = Ok kEtypeInt64"
| "getEtype (VMap _ _ _) = Ok kEtypeDocument"
| "getEtype (VMapNil _ _) = Ok kEtypeDocument"
| "getEtype (VStruct _ _) = Ok kEtypeDocument"
| "getEtype (VSlice _ _) = Ok kEtypeArray"
| "getEtype (VSliceNil _) = Ok kEtypeArray"
| "getEtype (VOther _) = Err UnsupportedType"

definition validateEname :: "bytes \<Rightarrow> error option" where
  "validateEname ename =
     (if kNullTerminator \<in> set ename then Some (NullInEname ename) else None)"

text \<open>A \<^verbatim>\<open>map[string]any\<close> is an association list with one entry for each key;
  \<^verbatim>\<open>m[k] = v\<close> is \<open>AList.update\<close>, which replaces the entry of \<open>k\<close> or adds one.\<close>

type_synonym document = "(bytes \<times> gval) list"

definition sortedKeys :: "document \<Rightarrow> bytes list" where
  "sortedKeys m = sort (map fst m)"

text \<open>\<^verbatim>\<open>strconv.Itoa\<close> of an index.\<close>

fun Itoa :: "nat \<Rightarrow> bytes" where
  "Itoa n = (if n < 10 then [of_nat (48 + n)] else Itoa (n div 10) @ [of_nat (48 + n mod 10)])"

declare Itoa.simps [simp del]

text \<open>A struct field is exported when its name starts with an upper-case letter;
  \<^verbatim>\<open>Interface()\<close> panics on a value obtained from an unexported field.\<close>

definition exported :: "bytes \<Rightarrow> bool" where
  "exported name = (case name of [] \<Rightarrow> False | c # _ \<Rightarrow> 0x41 \<le> c \<and> c \<le> 0x5A)"

definition convertReflectMapToMapStringAny :: "(bytes \<times> gval) list \<Rightarrow> document" where
  "convertReflectMapToMapStringAny entries =
     foldl (\<lambda>result (k, v). AList.update k v result) [] entries"

definition convertReflectSliceToMapStringAny :: "gval list \<Rightarrow> document" where
  "convertReflectSliceToMapStringAny s =
     foldl (\<lambda>m (i, v). AList.update (Itoa i) v m) [] (zip [0..<length s] s)"

definition convertReflectStructToMapStringAny ::
    "(bytes \<times> rtype) list \<Rightarrow> gval list \<Rightarrow> document option" where
  "convertReflectStructToMapStringAny fts vals =
     (if list_all exported (map fst (take (length vals) fts))
      then Some (foldl (\<lambda>result (fieldName, v). AList.update fieldName v result) []
                   (zip (map fst fts) vals))
      else None)"

text \<open>\<^verbatim>\<open>val.UTC().UnixMilli()\<close>, in 64-bit arithmetic.\<close>

definition UnixMilli :: "int \<Rightarrow> int \<Rightarrow> 64 word" where
  "UnixMilli sec nsec = word_of_int (sec * 1000 + nsec div 1000000)"

text \<open>The size every value has for the termination argument of the encoder.\<close>

definition docsize :: "document \<Rightarrow> nat" where
  "docsize doc = sum_list (map (\<lambda>p. Suc (size (snd p))) doc)"

text \<open>
  \<^verbatim>\<open>appendAny\<close>, \<^verbatim>\<open>appendOther\<close> and \<^verbatim>\<open>appendMap\<close>. The loop of \<^verbatim>\<open>appendMap\<close> over the
  sorted keys is \<open>appendMap_loop\<close>. A key that the document does not hold reads as the
  nil interface, on which \<^verbatim>\<open>getEtype\<close> panics. The size placeholder is overwritten in
  place once the terminator is written.
\<close>

function (sequential)
    appendAny :: "bytes \<Rightarrow> gval \<Rightarrow> eresult"
and appendOther :: "bytes \<Rightarrow> gval \<Rightarrow> eresult"
and appendMap :: "bytes \<Rightarrow> document \<Rightarrow> eresult"
and appendMap_loop :: "bytes \<Rightarrow> document \<Rightarrow> bytes list \<Rightarrow> eresult"
where
  "appendAny buffer VNil = EPanic"
| "appendAny buffer (VPtr _ v) = appendAny buffer v"
| "appendAny buffer (VPtrNil _) = EPanic"
| "appendAny buffer (VBytes val) =
     (if length val > MaxInt32 then Fail buffer (ByteSliceTooBig (length val))
      else Done (appendInt32 buffer (of_nat (length val)) @ [kBinarySubtype] @ val))"
| "appendAny buffer VBytesNil =
     Done (appendInt32 buffer 0 @ [kBinarySubtype])"
| "appendAny buffer (VString val) =
     (if length val + 1 > MaxInt32 then Fail buffer (StringTooLong (length val))
      else Done (appendInt32 buffer (of_nat (length val + 1)) @ val @ [kNullTerminator]))"
| "appendAny buffer (VFloat64 val) = Done (appendFloat64 buffer val)"
| "appendAny buffer (VBool val) = Done (appendBoolean buffer val)"
| "appendAny buffer (VTime sec nsec) = Done (appendInt64 buffer (UnixMilli sec nsec))"
| "appendAny buffer (VInt32 val) = Done (appendInt32 buffer val)"
| "appendAny buffer (VInt val) = Done (appendInt64 buffer val)"
| "appendAny buffer (VInt64 val) = Done (appendInt64 buffer val)"
| "appendAny buffer val = appendOther buffer val"

| "appendOther buffer (VMap kt et entries) =
     (if kind_of kt \<noteq> KString then Fail buffer OnlyMapString
      else appendMap buffer (convertReflectMapToMapStringAny entries))"
| "appendOther buffer (VMapNil kt et) =
     (if kind_of kt \<noteq> KString then Fail buffer OnlyMapString
      else appendMap buffer (convertReflectMapToMapStringAny []))"
| "appendOther buffer (VSlice et s) = appendMap buffer (convertReflectSliceToMapStringAny s)"
| "appendOther buffer (VSliceNil et) = appendMap buffer (convertReflectSliceToMapStringAny [])"
| "appendOther buffer (VStruct fts vals) =
     (case convertReflectStructToMapStringAny fts vals of
        None \<Rightarrow> EPanic
      | Some doc \<Rightarrow> appendMap buffer doc)"
| "appendOther buffer val = Fail buffer UnableToSerialize"

| "appendMap buffer doc =
     (let startPos = length buffer;
          buffer1 = appendInt32 buffer 0
      in case appendMap_loop buffer1 doc (sortedKeys doc) of
           EPanic \<Rightarrow> EPanic
         | Fail buffer2 err \<Rightarrow> Fail buffer2 err
         | Done buffer2 \<Rightarrow>
             (let buffer3 = buffer2 @ [kEtypeDone];
                  endPos = length buffer3;
                  totalSize = endPos - startPos
              in if totalSize > MaxInt32 then Fail [] (BufferTooBig totalSize)
                 else Done (take startPos buffer3 @ convertInt32ToBytes (of_nat totalSize)
                            @ drop (startPos + 4) buffer3)))"

| "appendMap_loop buffer doc [] = Done buffer"
| "appendMap_loop buffer doc (key # keys) =
     (case validateEname key of
        Some err \<Rightarrow> Fail buffer err
      | None \<Rightarrow>
         (case map_of doc key of
            None \<Rightarrow> EPanic
          | Some val \<Rightarrow>
             (case getEtype val of
                Panic \<Rightarrow> EPanic
              | OutOfFuel \<Rightarrow> EPanic
              | Err err \<Rightarrow> Fail buffer (InKey key err)
              | Ok et \<Rightarrow>
                 (case appendAny (buffer @ [et] @ key @ [kNullTerminator]) val of
                    EPanic \<Rightarrow> EPanic
                  | Fail buffer' err \<Rightarrow> Fail buffer' (InKey key err)
                  | Done buffer' \<Rightarrow> appendMap_loop buffer' doc keys))))"
  by pat_completeness auto

lemma docsize_update: "docsize (AList.update k v m) \<le> docsize m + Suc (size v)"
  by (induction m) (auto simp: docsize_def)

lemma docsize_foldl_update:
  "docsize (foldl (\<lambda>m (k, v). AList.update (f k) v m) acc es)
     \<le> docsize acc + sum_list (map (\<lambda>p. Suc (size (snd p))) es)"
proof (induction es arbitrary: acc)
  case Nil show ?case by simp
next
  case (Cons e es)
  obtain k v where e: "e = (k, v)" by (cases e)
  have "docsize (foldl (\<lambda>m (k, v). AList.update (f k) v m) (AList.update (f k) v acc) es)
        \<le> docsize (AList.update (f k) v acc) + sum_list (map (\<lambda>p. Suc (size (snd p))) es)"
    by (rule Cons.IH)
  also have "\<dots> \<le> docsize acc + Suc (size v) + sum_list (map (\<lambda>p. Suc (size (snd p))) es)"
    using docsize_update [of "f k" v acc] by simp
  finally show ?case by (simp add: e)
qed

lemma sum_list_zip_snd_le:
  "sum_list (map (\<lambda>p. Suc (size (snd p))) (zip xs (ys :: gval list))) \<le> size_list size ys"
proof (induction ys arbitrary: xs)
  case Nil show ?case by simp
next
  case (Cons y ys) show ?case using Cons.IH by (cases xs) (auto intro: le_SucI trans_le_add2)
qed

lemma docsize_convertMap:
  "docsize (convertReflectMapToMapStringAny entries) \<le> size_list (size_prod (\<lambda>x. 0) size) entries"
proof -
  have "docsize (convertReflectMapToMapStringAny entries)
        \<le> docsize [] + sum_list (map (\<lambda>p. Suc (size (snd p))) entries)"
    unfolding convertReflectMapToMapStringAny_def
    using docsize_foldl_update [of "\<lambda>k. k" "[]" entries] by simp
  also have "\<dots> \<le> size_list (size_prod (\<lambda>x. 0) size) entries"
    by (induction entries) (auto simp: docsize_def)
  finally show ?thesis .
qed

lemma docsize_convertSlice:
  "docsize (convertReflectSliceToMapStringAny s) \<le> size_list size s"
proof -
  have "docsize (convertReflectSliceToMapStringAny s)
        \<le> docsize [] + sum_list (map (\<lambda>p. Suc (size (snd p))) (zip [0..<length s] s))"
    unfolding convertReflectSliceToMapStringAny_def
    by (rule docsize_foldl_update)
  also have "\<dots> \<le> size_list size s"
    using sum_list_zip_snd_le [of "[0..<length s]" s] by (simp add: docsize_def)
  finally show ?thesis .
qed

lemma docsize_convertStruct:
  assumes "convertReflectStructToMapStringAny fts vals = Some doc"
  shows "docsize doc \<le> size_list size vals"
proof -
  have doc: "doc = foldl (\<lambda>result (fieldName, v). AList.update fieldName v result) []
                   (zip (map fst fts) vals)"
    using assms by (simp add: convertReflectStructToMapStringAny_def split: if_splits)
  have "docsize doc \<le> docsize [] + sum_list (map (\<lambda>p. Suc (size (snd p))) (zip (map fst fts) vals))"
    unfolding doc using docsize_foldl_update [of "\<lambda>k. k" "[]" "zip (map fst fts) vals"] by simp
  also have "\<dots> \<le> size_list size vals"
    using sum_list_zip_snd_le [of "map fst fts" vals] by (simp add: docsize_def)
  finally show ?thesis .
qed

lemma size_map_of_docsize: "map_of doc key = Some v \<Longrightarrow> Suc (size v) \<le> docsize doc"
  by (induction doc) (auto simp: docsize_def split: if_splits)

termination appendAny
  apply (relation "inv_image (less_than <*lex*> less_than <*lex*> less_than) (\<lambda>x. case x of Inl (Inl (b, v)) \<Rightarrow> (Suc (size v), 1::nat, 0::nat) | Inl (Inr (b, v)) \<Rightarrow> (Suc (size v), 0, 0) | Inr (Inl (b, d)) \<Rightarrow> (docsize d, 3, 0) | Inr (Inr (b, d, ks)) \<Rightarrow> (docsize d, 2, length ks))")
  apply simp_all
  subgoal by (intro wf_inv_image wf_lex_prod wf_less_than)
  subgoal by (rule le_imp_less_Suc [OF le_SucI [OF docsize_convertMap]])
  subgoal by (simp add: convertReflectMapToMapStringAny_def docsize_def)
  subgoal by (rule le_imp_less_Suc [OF le_SucI [OF docsize_convertSlice]])
  subgoal by (simp add: convertReflectSliceToMapStringAny_def docsize_def)
  subgoal by (rule le_imp_less_Suc [OF le_SucI [OF docsize_convertStruct]])
  subgoal by (auto dest!: size_map_of_docsize)
  done


text \<open>\<^verbatim>\<open>Marshal\<close>. On an error the caller gets no buffer.\<close>

fun Marshal :: "gval \<Rightarrow> eresult" where
  "Marshal VNil = EPanic"
| "Marshal (VPtr _ v) = Marshal v"
| "Marshal (VPtrNil _) = EPanic"
| "Marshal document =
     (if kind_of (type_of document) \<noteq> KMap \<and> kind_of (type_of document) \<noteq> KStruct
      then Fail [] TopLevelNotMapOrStruct
      else case appendAny [] document of
             Done buffer \<Rightarrow> Done buffer
           | Fail buffer err \<Rightarrow> Fail [] (InMarshal err)
           | EPanic \<Rightarrow> EPanic)"


section \<open>The decoder\<close>

subsection \<open>Sequencing\<close>

text \<open>\<^verbatim>\<open>if err != nil { return 0, err }\<close> after a call, and the wrapping of an error.\<close>

fun andThen :: "'a result \<Rightarrow> ('a \<Rightarrow> 'b result) \<Rightarrow> 'b result" where
  "andThen (Ok x) f = f x"
| "andThen (Err e) f = Err e"
| "andThen Panic f = Panic"
| "andThen OutOfFuel f = OutOfFuel"

fun wrapErr :: "(error \<Rightarrow> error) \<Rightarrow> 'a result \<Rightarrow> 'a result" where
  "wrapErr w (Err e) = Err (w e)"
| "wrapErr w (Ok x) = Ok x"
| "wrapErr w Panic = Panic"
| "wrapErr w OutOfFuel = OutOfFuel"

subsection \<open>Readers of the primitives\<close>

text \<open>
  The \<^verbatim>\<open>bytes.Buffer\<close> is the list of the bytes not read yet. Every reader returns the
  count it reports (\<^verbatim>\<open>numread\<close>, a Go \<^verbatim>\<open>int\<close>), the value read and the rest of the buffer.
  \<^verbatim>\<open>binary.Read\<close> fails with \<^verbatim>\<open>io.EOF\<close> on an empty buffer and with
  \<^verbatim>\<open>io.ErrUnexpectedEOF\<close> on one that is too short.
\<close>

definition readFixed :: "nat \<Rightarrow> bytes \<Rightarrow> (int \<times> 'a::len word \<times> bytes) result" where
  "readFixed n buffer =
     (if buffer = [] then Err EOF
      else if length buffer < n then Err UnexpectedEOF
      else Ok (int n, fromLittleEndian (take n buffer), drop n buffer))"

definition readInt32 :: "bytes \<Rightarrow> (int \<times> 32 word \<times> bytes) result" where
  "readInt32 buffer = readFixed 4 buffer"

definition readInt64 :: "bytes \<Rightarrow> (int \<times> 64 word \<times> bytes) result" where
  "readInt64 buffer = readFixed 8 buffer"

definition readInt :: "bytes \<Rightarrow> (int \<times> 64 word \<times> bytes) result" where
  "readInt buffer = readInt64 buffer"

definition readFloat64 :: "bytes \<Rightarrow> (int \<times> 64 word \<times> bytes) result" where
  "readFloat64 buffer = readFixed 8 buffer"

fun readEtype :: "bytes \<Rightarrow> (int \<times> etype \<times> bytes) result" where
  "readEtype [] = Err EOF"
| "readEtype (b # buffer) = Ok (1, b, buffer)"

fun readEname_loop :: "bytes \<Rightarrow> bytes \<Rightarrow> (int \<times> bytes \<times> bytes) result" where
  "readEname_loop [] ename = Err EOF"
| "readEname_loop (b # buffer) ename =
     (if b = 0 then Ok (int (length ename) + 1, ename, buffer)
      else readEname_loop buffer (ename @ [b]))"

definition readEname :: "bytes \<Rightarrow> (int \<times> bytes \<times> bytes) result" where
  "readEname buffer = readEname_loop buffer []"

text \<open>
  \<^verbatim>\<open>buffer.Read(p)\<close> of \<^verbatim>\<open>bytes.Buffer\<close>: on an empty buffer it returns \<^verbatim>\<open>io.EOF\<close>, unless
  \<open>p\<close> is empty too; otherwise it copies what there is and reports how much. The
  callers turn a short count into an error.
\<close>

definition bufferRead :: "nat \<Rightarrow> bytes \<Rightarrow> (bytes \<times> bytes) result" where
  "bufferRead n buffer =
     (if buffer = [] \<and> n \<noteq> 0 then Err EOF
      else if length buffer < n then Err (ShortRead n (length buffer))
      else Ok (take n buffer, drop n buffer))"

text \<open>
  \<^verbatim>\<open>readEstring\<close>. \<^verbatim>\<open>sizeWithNullterm-1\<close> is computed in \<^verbatim>\<open>int32\<close> and wraps around;
  \<^verbatim>\<open>make([]byte, n)\<close> panics when \<open>n\<close> is negative. The count returned is
  \<^verbatim>\<open>int(sizeWithNullterm) + kInt32Size\<close>. (That \<^verbatim>\<open>make\<close> may run out of memory is not
  modelled.)
\<close>

definition readEstring :: "bytes \<Rightarrow> (int \<times> bytes \<times> bytes) result" where
  "readEstring buffer =
     andThen (readInt32 buffer) (\<lambda>(_, sizeWithNullterm, buffer1).
       if sint (sizeWithNullterm - 1) < 0 then Panic
       else andThen (bufferRead (nat (sint (sizeWithNullterm - 1))) buffer1) (\<lambda>(str, buffer2).
         case buffer2 of
           [] \<Rightarrow> Err EOF
         | nullterm # buffer3 \<Rightarrow>
             if nullterm \<noteq> 0 then Err ExpectedNullTerminator
             else Ok (sint sizeWithNullterm + 4, str, buffer3)))"

definition readEbinary :: "bytes \<Rightarrow> (int \<times> bytes \<times> bytes) result" where
  "readEbinary buffer =
     andThen (readInt32 buffer) (\<lambda>(_, size, buffer1).
       case buffer1 of
         [] \<Rightarrow> Err EOF
       | subtype # buffer2 \<Rightarrow>
           if sint size < 0 then Panic
           else andThen (bufferRead (nat (sint size)) buffer2) (\<lambda>(bin, buffer3).
             Ok (sint size + 4 + 1, bin, buffer3)))"

definition readBoolean :: "bytes \<Rightarrow> (int \<times> bool \<times> bytes) result" where
  "readBoolean buffer =
     (case buffer of
        [] \<Rightarrow> Err (InReadBoolean EOF)
      | b # buffer1 \<Rightarrow>
          if b = 0 then Ok (1, False, buffer1)
          else if b = 1 then Ok (1, True, buffer1)
          else Err (UnexpectedBoolean b))"

text \<open>\<^verbatim>\<open>time.Unix(sec, nsec)\<close>, which normalises the nanoseconds into \<open>[0, 10^9)\<close>, applied
  to \<^verbatim>\<open>millisecFromEpoch/1e3\<close> and \<^verbatim>\<open>(millisecFromEpoch%1e3)*1e6\<close>; Go's division
  truncates towards zero.\<close>

definition Unix :: "int \<Rightarrow> int \<Rightarrow> gval" where
  "Unix sec nsec =
     (if nsec < 0 \<or> nsec \<ge> 1000000000 then
        (let n = nsec sdiv 1000000000;
             sec1 = sec + n;
             nsec1 = nsec - n * 1000000000
         in if nsec1 < 0 then VTime (sec1 - 1) (nsec1 + 1000000000) else VTime sec1 nsec1)
      else VTime sec nsec)"

definition timeFromMillis :: "64 word \<Rightarrow> gval" where
  "timeFromMillis millisecFromEpoch =
     Unix (sint millisecFromEpoch sdiv 1000) ((sint millisecFromEpoch smod 1000) * 1000000)"


subsection \<open>Types of targets\<close>

text \<open>The zero value of a type (\<^verbatim>\<open>var tmp T\<close>, \<^verbatim>\<open>reflect.New(T).Elem()\<close>).\<close>

lemma size_snd_field: "ft \<in> set fts \<Longrightarrow> size (snd ft) < Suc (size_list (size_prod (\<lambda>x. 0) size) fts)"
  by (induction fts) (auto simp: less_Suc_eq_le trans_le_add1 split: prod.splits)

function zero_of :: "rtype \<Rightarrow> gval" where
  "zero_of TFloat64 = VFloat64 0"
| "zero_of TString = VString []"
| "zero_of TBool = VBool False"
| "zero_of TTime = VTime (- 62135596800) 0"
| "zero_of TInt32 = VInt32 0"
| "zero_of TInt64 = VInt64 0"
| "zero_of TInt = VInt 0"
| "zero_of TUint8 = VOther TUint8"
| "zero_of TAny = VNil"
| "zero_of (TSlice et) = (if et = TUint8 then VBytesNil else VSliceNil et)"
| "zero_of (TMap kt et) = VMapNil kt et"
| "zero_of (TStruct fts) = VStruct fts (map (\<lambda>ft. zero_of (snd ft)) fts)"
| "zero_of (TPtr t) = VPtrNil t"
| "zero_of (TOther n) = VOther (TOther n)"
  by pat_completeness auto
termination
  by (relation "measure size") (auto simp: size_snd_field)

text \<open>\<^verbatim>\<open>reflect.MakeMap(T)\<close> and \<^verbatim>\<open>reflect.MakeSlice(T, 0, 0)\<close>; both panic on a type of
  another kind.\<close>

fun MakeMap :: "rtype \<Rightarrow> gval result" where
  "MakeMap (TMap kt et) = Ok (VMap kt et [])"
| "MakeMap _ = Panic"

fun MakeSlice :: "rtype \<Rightarrow> gval result" where
  "MakeSlice (TSlice et) = Ok (if et = TUint8 then VBytes [] else VSlice et [])"
| "MakeSlice _ = Panic"

text \<open>\<^verbatim>\<open>rtype.Elem()\<close> panics unless the type is a map, pointer or slice type (arrays and
  channels are not in the model).\<close>

fun Elem :: "rtype \<Rightarrow> rtype result" where
  "Elem (TSlice et) = Ok et"
| "Elem (TMap kt et) = Ok et"
| "Elem (TPtr t) = Ok t"
| "Elem _ = Panic"

fun Key :: "rtype \<Rightarrow> rtype result" where
  "Key (TMap kt et) = Ok kt"
| "Key _ = Panic"

text \<open>\<^verbatim>\<open>mapRvalue.SetMapIndex(key, elem)\<close> and \<^verbatim>\<open>reflect.Append(arrRvalue, elem)\<close> on the
  value the decoder has made.\<close>

fun SetMapIndex :: "gval \<Rightarrow> bytes \<Rightarrow> gval \<Rightarrow> gval result" where
  "SetMapIndex (VMap kt et entries) key v = Ok (VMap kt et (AList.update key v entries))"
| "SetMapIndex _ key v = Panic"

fun Append :: "gval \<Rightarrow> gval \<Rightarrow> gval result" where
  "Append (VSlice et s) v = Ok (VSlice et (s @ [v]))"
| "Append _ v = Panic"

text \<open>
  \<^verbatim>\<open>struct_rvalue.FieldByName(ename)\<close>: the position, declared type and value of the
  field, nothing when the struct has no such field, a panic when the value is not a
  struct. A \<^verbatim>\<open>time.Time\<close> is a struct of three unexported fields, \<^verbatim>\<open>wall uint64\<close>,
  \<^verbatim>\<open>ext int64\<close> and \<^verbatim>\<open>loc *Location\<close>; their values are never read, because taking the
  interface of an unexported field panics first.
\<close>

fun fieldIndex :: "(bytes \<times> rtype) list \<Rightarrow> bytes \<Rightarrow> nat option" where
  "fieldIndex [] ename = None"
| "fieldIndex (ft # fts) ename =
     (if fst ft = ename then Some 0 else map_option Suc (fieldIndex fts ename))"

definition timeFields :: "(bytes \<times> rtype) list" where
  "timeFields =
     [([0x77, 0x61, 0x6c, 0x6c], TOther 0),
      ([0x65, 0x78, 0x74], TInt64),
      ([0x6c, 0x6f, 0x63], TPtr (TOther 1))]"

fun FieldByName :: "gval \<Rightarrow> bytes \<Rightarrow> (nat \<times> rtype \<times> gval) option result" where
  "FieldByName (VStruct fts vals) ename =
     (case fieldIndex fts ename of
        None \<Rightarrow> Ok None
      | Some i \<Rightarrow> if i < length vals then Ok (Some (i, snd (fts ! i), vals ! i)) else Ok None)"
| "FieldByName (VTime sec nsec) ename =
     (case fieldIndex timeFields ename of
        None \<Rightarrow> Ok None
      | Some i \<Rightarrow> Ok (Some (i, snd (timeFields ! i), zero_of (snd (timeFields ! i)))))"
| "FieldByName _ ename = Panic"

fun setField :: "gval \<Rightarrow> nat \<Rightarrow> gval \<Rightarrow> gval" where
  "setField (VStruct fts vals) i v = VStruct fts (vals[i := v])"
| "setField sv i v = sv"

text \<open>\<^verbatim>\<open>validateEtypeCanBeDeserializeToRtype\<close>; an element type with no case passes.\<close>

definition validateEtypeCanBeDeserializeToRtype :: "etype \<Rightarrow> rtype \<Rightarrow> error option" where
  "validateEtypeCanBeDeserializeToRtype et rtype =
     (if rtype = TAny then None
      else if et = kEtypeDouble then
        (if kind_of rtype \<noteq> KFloat64 then Some (CannotConvert et rtype) else None)
      else if et = kEtypeString then
        (if kind_of rtype \<noteq> KString then Some (CannotConvert et rtype) else None)
      else if et = kEtypeBinary then
        (if rtype \<noteq> TSlice TUint8 then Some (CannotConvert et rtype) else None)
      else if et = kEtypeBoolean then
        (if kind_of rtype \<noteq> KBool then Some (CannotConvert et rtype) else None)
      else if et = kEtypeUtcDatetime then
        (if rtype \<noteq> TTime then Some (CannotConvert et rtype) else None)
      else if et = kEtypeInt32 then
        (if kind_of rtype \<noteq> KInt32 then Some (CannotConvert et rtype) else None)
      else if et = kEtypeInt64 then
        (if kind_of rtype \<noteq> KInt64 \<and> kind_of rtype \<noteq> KInt
         then Some (CannotConvert et rtype) else None)
      else if et = kEtypeArray then
        (if kind_of rtype \<noteq> KSlice then Some (CannotConvert et rtype) else None)
      else if et = kEtypeDocument then
        (if kind_of rtype \<noteq> KStruct \<and> kind_of rtype \<noteq> KMap
         then Some (CannotConvert et rtype) else None)
      else None)"

text \<open>
  The temporary variable \<^verbatim>\<open>readMap\<close> reads an element into: its static type and its
  initial value. \<open>mapRtype\<close> is the type of the map being filled; the test
  \<^verbatim>\<open>mapptr.(*map[string]any)\<close> asks whether that type is exactly \<^verbatim>\<open>map[string]any\<close>.
\<close>

definition mapTmp :: "etype \<Rightarrow> rtype \<Rightarrow> rtype \<Rightarrow> bytes \<Rightarrow> (rtype \<times> gval) result" where
  "mapTmp et mapRtype mapElemRtype ename =
     (if et = kEtypeDouble then Ok (TFloat64, zero_of TFloat64)
      else if et = kEtypeString then Ok (TString, zero_of TString)
      else if et = kEtypeBinary then Ok (TSlice TUint8, zero_of (TSlice TUint8))
      else if et = kEtypeBoolean then Ok (TBool, zero_of TBool)
      else if et = kEtypeUtcDatetime then Ok (TTime, zero_of TTime)
      else if et = kEtypeInt32 then Ok (TInt32, zero_of TInt32)
      else if et = kEtypeInt64 then
        (if kind_of mapElemRtype = KInt then Ok (TInt, zero_of TInt)
         else Ok (TInt64, zero_of TInt64))
      else if et = kEtypeDocument then
        (if kind_of mapElemRtype = KStruct then Ok (mapElemRtype, zero_of mapElemRtype)
         else if kind_of mapElemRtype = KMap then
           andThen (MakeMap mapElemRtype) (\<lambda>tmpmap. Ok (mapElemRtype, tmpmap))
         else if mapRtype \<noteq> TMap TString TAny then
           Err (CannotDeserializeDocument ename mapElemRtype)
         else Ok (TMap TString TAny, VMap TString TAny []))
      else if et = kEtypeArray then
        (if kind_of mapElemRtype = KSlice then
           andThen (MakeSlice mapElemRtype) (\<lambda>tmpslice. Ok (mapElemRtype, tmpslice))
         else if mapRtype \<noteq> TMap TString TAny then
           Err (CannotDeserializeSlice ename mapElemRtype)
         else Ok (TSlice TAny, VSlice TAny []))
      else Err (UnsupportedEtypeField ename et))"

text \<open>The same for \<^verbatim>\<open>readArray\<close>, where the test is \<^verbatim>\<open>arrptr.(*[]any)\<close>.\<close>

definition arrTmp :: "etype \<Rightarrow> rtype \<Rightarrow> rtype \<Rightarrow> bytes \<Rightarrow> (rtype \<times> gval) result" where
  "arrTmp et arrRtype arrElemRtype ename =
     (if et = kEtypeDouble then Ok (TFloat64, zero_of TFloat64)
      else if et = kEtypeString then Ok (TString, zero_of TString)
      else if et = kEtypeBinary then Ok (TSlice TUint8, zero_of (TSlice TUint8))
      else if et = kEtypeBoolean then Ok (TBool, zero_of TBool)
      else if et = kEtypeUtcDatetime then Ok (TTime, zero_of TTime)
      else if et = kEtypeInt32 then Ok (TInt32, zero_of TInt32)
      else if et = kEtypeInt64 then
        (if kind_of arrElemRtype = KInt then Ok (TInt, zero_of TInt)
         else Ok (TInt64, zero_of TInt64))
      else if et = kEtypeDocument then
        (if kind_of arrElemRtype = KStruct then Ok (arrElemRtype, zero_of arrElemRtype)
         else if kind_of arrElemRtype = KMap then
           andThen (MakeMap arrElemRtype) (\<lambda>tmpmap. Ok (arrElemRtype, tmpmap))
         else if arrRtype \<noteq> TSlice TAny then
           Err (CannotDeserializeDocument ename arrElemRtype)
         else Ok (TMap TString TAny, VMap TString TAny []))
      else if et = kEtypeArray then
        (if kind_of arrElemRtype = KSlice then
           andThen (MakeSlice arrElemRtype) (\<lambda>tmpslice. Ok (arrElemRtype, tmpslice))
         else if arrRtype \<noteq> TSlice TAny then
           Err (CannotDeserializeSlice ename arrElemRtype)
         else Ok (TSlice TAny, VSlice TAny []))
      else Err (UnsupportedEtype et))"

text \<open>
  What the three loops do between reading an element's name and reading its value.
  \<^verbatim>\<open>readStruct\<close> looks the field up, validates the element type against the field's
  type, and takes the field's address as an interface, which panics on an unexported
  field. \<^verbatim>\<open>readMap\<close> and \<^verbatim>\<open>readArray\<close> validate the element type against the declared
  element type and then make the temporary.
\<close>

definition structField :: "gval \<Rightarrow> bytes \<Rightarrow> etype \<Rightarrow> (nat \<times> rtype \<times> gval) result" where
  "structField sv ename et =
     andThen (FieldByName sv ename) (\<lambda>field.
       case field of
         None \<Rightarrow> Err (FieldNotFound ename)
       | Some (i, field_rtype, field_value) \<Rightarrow>
          (case validateEtypeCanBeDeserializeToRtype et field_rtype of
             Some err \<Rightarrow> Err (InField ename err)
           | None \<Rightarrow>
              if \<not> exported ename then Panic
              else Ok (i, field_rtype, field_value)))"

definition mapElemTarget :: "etype \<Rightarrow> rtype \<Rightarrow> rtype \<Rightarrow> bytes \<Rightarrow> (rtype \<times> gval) result" where
  "mapElemTarget et mapRtype mapElemRtype ename =
     (case validateEtypeCanBeDeserializeToRtype et mapElemRtype of
        Some err \<Rightarrow> Err (InField ename err)
      | None \<Rightarrow> mapTmp et mapRtype mapElemRtype ename)"

definition arrElemTarget :: "etype \<Rightarrow> rtype \<Rightarrow> rtype \<Rightarrow> bytes \<Rightarrow> (rtype \<times> gval) result" where
  "arrElemTarget et arrRtype arrElemRtype ename =
     (case validateEtypeCanBeDeserializeToRtype et arrElemRtype of
        Some err \<Rightarrow> Err (InField ename err)
      | None \<Rightarrow> arrTmp et arrRtype arrElemRtype ename)"

subsection \<open>The recursive readers\<close>

text \<open>
  \<^verbatim>\<open>readEvalue\<close>, \<^verbatim>\<open>readStruct\<close>, \<^verbatim>\<open>readMap\<close> and \<^verbatim>\<open>readArray\<close>, and the \<^verbatim>\<open>for\<close> loop of each
  of the last three. A pointer to a variable is the variable's static type and the
  value it holds; a reader returns the count it reports, the value the variable
  holds afterwards, and the rest of the buffer. What a target holds after a failed
  call is not modelled. Every call passes on one unit of fuel less than it was given.

  In \<^verbatim>\<open>readEvalue\<close> a type assertion such as \<^verbatim>\<open>ptr_any.(*float64)\<close> panics unless the
  variable has exactly that type. In \<^verbatim>\<open>readStruct\<close>, \<^verbatim>\<open>field_rvalue.Addr().Interface()\<close>
  panics on an unexported field.
\<close>

function readEvalue :: "nat \<Rightarrow> bytes \<Rightarrow> rtype \<Rightarrow> gval \<Rightarrow> etype \<Rightarrow> (int \<times> gval \<times> bytes) result"
and readStruct :: "nat \<Rightarrow> bytes \<Rightarrow> gval \<Rightarrow> (int \<times> gval \<times> bytes) result"
and readStruct_loop ::
      "nat \<Rightarrow> bytes \<Rightarrow> int \<Rightarrow> 32 word \<Rightarrow> gval \<Rightarrow> (int \<times> gval \<times> bytes) result"
and readMap :: "nat \<Rightarrow> bytes \<Rightarrow> rtype \<Rightarrow> gval \<Rightarrow> (int \<times> gval \<times> bytes) result"
and readMap_loop ::
      "nat \<Rightarrow> bytes \<Rightarrow> int \<Rightarrow> 32 word \<Rightarrow> rtype \<Rightarrow> rtype \<Rightarrow> gval
         \<Rightarrow> (int \<times> gval \<times> bytes) result"
and readArray :: "nat \<Rightarrow> bytes \<Rightarrow> rtype \<Rightarrow> gval \<Rightarrow> (int \<times> gval \<times> bytes) result"
and readArray_loop ::
      "nat \<Rightarrow> bytes \<Rightarrow> int \<Rightarrow> 32 word \<Rightarrow> rtype \<Rightarrow> rtype \<Rightarrow> gval
         \<Rightarrow> (int \<times> gval \<times> bytes) result"
where
  "readEvalue 0 buffer T v et = OutOfFuel"
| "readEvalue (Suc fuel) buffer T v et =
     (if et = kEtypeDouble then
        (if T \<noteq> TFloat64 then Panic
         else andThen (readFloat64 buffer) (\<lambda>(numread, x, rest). Ok (numread, VFloat64 x, rest)))
      else if et = kEtypeString then
        (if T \<noteq> TString then Panic
         else andThen (readEstring buffer) (\<lambda>(numread, x, rest). Ok (numread, VString x, rest)))
      else if et = kEtypeBinary then
        (if T \<noteq> TSlice TUint8 then Panic
         else andThen (readEbinary buffer) (\<lambda>(numread, x, rest). Ok (numread, VBytes x, rest)))
      else if et = kEtypeBoolean then
        (if T \<noteq> TBool then Panic
         else andThen (readBoolean buffer) (\<lambda>(numread, x, rest). Ok (numread, VBool x, rest)))
      else if et = kEtypeUtcDatetime then
        (if T \<noteq> TTime then Panic
         else andThen (readInt64 buffer) (\<lambda>(numread, millisecFromEpoch, rest).
                Ok (numread, timeFromMillis millisecFromEpoch, rest)))
      else if et = kEtypeInt32 then
        (if T \<noteq> TInt32 then Panic
         else andThen (readInt32 buffer) (\<lambda>(numread, x, rest). Ok (numread, VInt32 x, rest)))
      else if et = kEtypeInt64 then
        (if T = TInt64 then
           andThen (readInt64 buffer) (\<lambda>(numread, x, rest). Ok (numread, VInt64 x, rest))
         else if T = TInt then
           andThen (readInt buffer) (\<lambda>(numread, x, rest). Ok (numread, VInt x, rest))
         else Err CannotConvertInt64)
      else if et = kEtypeDocument then
        (if kind_of T = KStruct then readStruct fuel buffer v
         else if kind_of T = KMap then readMap fuel buffer T v
         else Err (UnsupportedTarget T))
      else if et = kEtypeArray then readArray fuel buffer T v
      else Err (UnsupportedEtype et))"

| "readStruct 0 buffer sv = OutOfFuel"
| "readStruct (Suc fuel) buffer sv =
     andThen (readInt32 buffer) (\<lambda>(numread, expectedSize, buffer1).
       readStruct_loop fuel buffer1 numread expectedSize sv)"

| "readStruct_loop 0 buffer actualSize expectedSize sv = OutOfFuel"
| "readStruct_loop (Suc fuel) buffer actualSize expectedSize sv =
     andThen (readEtype buffer) (\<lambda>(numread, et, buffer1).
       if et = kEtypeDone then
         (if actualSize + numread \<noteq> sint expectedSize
          then Err (SizeMismatch expectedSize (actualSize + numread))
          else Ok (actualSize + numread, sv, buffer1))
       else
         andThen (readEname buffer1) (\<lambda>(numread1, ename, buffer2).
           andThen (structField sv ename et) (\<lambda>(i, field_rtype, field_value).
             andThen (wrapErr (InField ename)
                        (readEvalue fuel buffer2 field_rtype field_value et))
               (\<lambda>(numread2, v, buffer3).
                  readStruct_loop fuel buffer3
                    (actualSize + numread + numread1 + numread2) expectedSize
                    (setField sv i v)))))"

| "readMap 0 buffer mapRtype mv = OutOfFuel"
| "readMap (Suc fuel) buffer mapRtype mv =
     andThen (Key mapRtype) (\<lambda>mapKeyRtype.
       andThen (Elem mapRtype) (\<lambda>mapElemRtype.
         if kind_of mapKeyRtype \<noteq> KString then Err OnlyMapString
         else
           andThen (readInt32 buffer) (\<lambda>(numread, expectedSize, buffer1).
             if mv = VNil then Panic
             else
               andThen (MakeMap mapRtype) (\<lambda>m.
                 readMap_loop fuel buffer1 numread expectedSize mapRtype mapElemRtype m))))"

| "readMap_loop 0 buffer actualSize expectedSize mapRtype mapElemRtype m = OutOfFuel"
| "readMap_loop (Suc fuel) buffer actualSize expectedSize mapRtype mapElemRtype m =
     andThen (readEtype buffer) (\<lambda>(numread, et, buffer1).
       if et = kEtypeDone then
         (if actualSize + numread \<noteq> sint expectedSize
          then Err (SizeMismatch expectedSize (actualSize + numread))
          else Ok (actualSize + numread, m, buffer1))
       else
         andThen (readEname buffer1) (\<lambda>(numread1, ename, buffer2).
           andThen (mapElemTarget et mapRtype mapElemRtype ename) (\<lambda>(tmpRtype, tmp).
             andThen (wrapErr (InField ename) (readEvalue fuel buffer2 tmpRtype tmp et))
               (\<lambda>(numread2, v, buffer3).
                  andThen (SetMapIndex m ename v) (\<lambda>m'.
                    readMap_loop fuel buffer3
                      (actualSize + numread + numread1 + numread2) expectedSize
                      mapRtype mapElemRtype m')))))"

| "readArray 0 buffer arrRtype av = OutOfFuel"
| "readArray (Suc fuel) buffer arrRtype av =
     andThen (Elem arrRtype) (\<lambda>arrElemRtype.
       andThen (readInt32 buffer) (\<lambda>(numread, expectedSize, buffer1).
         if av = VNil then Panic
         else
           andThen (MakeSlice arrRtype) (\<lambda>a.
             readArray_loop fuel buffer1 numread expectedSize arrRtype arrElemRtype a)))"

| "readArray_loop 0 buffer actualSize expectedSize arrRtype arrElemRtype a = OutOfFuel"
| "readArray_loop (Suc fuel) buffer actualSize expectedSize arrRtype arrElemRtype a =
     andThen (readEtype buffer) (\<lambda>(numread, et, buffer1).
       if et = kEtypeDone then
         (if actualSize + numread \<noteq> sint expectedSize
          then Err (SizeMismatch expectedSize (actualSize + numread))
          else Ok (actualSize + numread, a, buffer1))
       else
         andThen (readEname buffer1) (\<lambda>(numread1, ename, buffer2).
           andThen (arrElemTarget et arrRtype arrElemRtype ename) (\<lambda>(tmpRtype, tmp).
             andThen (wrapErr (InField ename) (readEvalue fuel buffer2 tmpRtype tmp et))
               (\<lambda>(numread2, v, buffer3).
                  andThen (Append a v) (\<lambda>a'.
                    readArray_loop fuel buffer3
                      (actualSize + numread + numread1 + numread2) expectedSize
                      arrRtype arrElemRtype a')))))"
  by pat_completeness auto
termination
  by (relation "measure (\<lambda>x. case x of
        Inl (Inl a) \<Rightarrow> fst a
      | Inl (Inr (Inl a)) \<Rightarrow> fst a
      | Inl (Inr (Inr a)) \<Rightarrow> fst a
      | Inr (Inl (Inl a)) \<Rightarrow> fst a
      | Inr (Inl (Inr a)) \<Rightarrow> fst a
      | Inr (Inr (Inl a)) \<Rightarrow> fst a
      | Inr (Inr (Inr a)) \<Rightarrow> fst a)") simp_all

text \<open>
  \<^verbatim>\<open>Unmarshal\<close>. The result is the value the target holds afterwards. The fuel is
  one more than the length of the input, which is enough for every input (lemma
  \<open>Unmarshal_never_OutOfFuel\<close>).
\<close>

definition unmarshalInto :: "bytes \<Rightarrow> rtype \<Rightarrow> gval \<Rightarrow> gval result" where
  "unmarshalInto marshalled valRtype v =
     (if kind_of valRtype \<noteq> KStruct \<and> kind_of valRtype \<noteq> KMap
      then Err TopLevelNotMapOrStruct
      else
        andThen (wrapErr InUnmarshal
                   (if kind_of valRtype = KStruct
                    then readStruct (Suc (length marshalled)) marshalled v
                    else readMap (Suc (length marshalled)) marshalled valRtype v))
          (\<lambda>(numread, v', rest).
             if numread \<noteq> int (length marshalled)
             then Err (DidNotConsumeAll numread (length marshalled))
             else Ok v'))"

fun Unmarshal :: "bytes \<Rightarrow> gval \<Rightarrow> gval result" where
  "Unmarshal marshalled VNil = Panic"
| "Unmarshal marshalled (VPtr valRtype v) = unmarshalInto marshalled valRtype v"
| "Unmarshal marshalled (VPtrNil valRtype) = unmarshalInto marshalled valRtype VNil"
| "Unmarshal marshalled _ = Err PtrMustBePointer"

section \<open>Evaluation\<close>

lemma convertInt32ToBytes_eq:
  "convertInt32ToBytes w = [ucast w, ucast (drop_bit 8 w), ucast (drop_bit 16 w), ucast (drop_bit 24 w)]"
  by (simp add: convertInt32ToBytes_def eval_nat_numeral drop_bit_drop_bit del: drop_bit_Suc)

lemma convertInt64ToBytes_eq:
  "convertInt64ToBytes w =
     [ucast w, ucast (drop_bit 8 w), ucast (drop_bit 16 w), ucast (drop_bit 24 w),
      ucast (drop_bit 32 w), ucast (drop_bit 40 w), ucast (drop_bit 48 w), ucast (drop_bit 56 w)]"
  by (simp add: convertInt64ToBytes_def eval_nat_numeral drop_bit_drop_bit del: drop_bit_Suc)

lemmas enc_eval =
  appendInt32_def appendInt64_def appendFloat64_def appendBoolean_def
  convertInt32ToBytes_eq convertInt64ToBytes_eq convertFloat64ToBytes_def
  sortedKeys_def validateEname_def convertReflectMapToMapStringAny_def
  convertReflectSliceToMapStringAny_def convertReflectStructToMapStringAny_def
  exported_def MaxInt32_def UnixMilli_def Itoa.simps

lemmas dec_eval =
  unmarshalInto_def readInt32_def readInt64_def readInt_def readFloat64_def readFixed_def
  readEname_def readEstring_def readEbinary_def readBoolean_def bufferRead_def
  validateEtypeCanBeDeserializeToRtype_def mapTmp_def arrTmp_def timeFromMillis_def
  structField_def mapElemTarget_def arrElemTarget_def
  Unix_def timeFields_def exported_def

section \<open>The encoder appends\<close>

text \<open>A successful call appends to the buffer it was given, and what it appends does
  not depend on that buffer.\<close>

lemma length_convertInt32ToBytes [simp]: "length (convertInt32ToBytes w) = 4"
  by (simp add: convertInt32ToBytes_eq)

lemma appendMap_unfold:
  "appendMap buffer doc =
     (case appendMap_loop (buffer @ convertInt32ToBytes 0) doc (sortedKeys doc) of
        EPanic \<Rightarrow> EPanic
      | Fail buffer2 err \<Rightarrow> Fail buffer2 err
      | Done buffer2 \<Rightarrow>
          if Suc (length buffer2) - length buffer > MaxInt32
          then Fail [] (BufferTooBig (Suc (length buffer2) - length buffer))
          else Done (take (length buffer) (buffer2 @ [0])
                     @ convertInt32ToBytes (of_nat (Suc (length buffer2) - length buffer))
                     @ drop (length buffer + 4) (buffer2 @ [0])))"
  by (simp add: Let_def appendInt32_def split: eresult.splits)

lemma append_frame:
  "appendAny b v = Done out \<Longrightarrow> \<exists>w. out = b @ w \<and> (\<forall>b'. appendAny b' v = Done (b' @ w))"
  "appendOther b v = Done out \<Longrightarrow> \<exists>w. out = b @ w \<and> (\<forall>b'. appendOther b' v = Done (b' @ w))"
  "appendMap b doc = Done out \<Longrightarrow> \<exists>w. out = b @ w \<and> (\<forall>b'. appendMap b' doc = Done (b' @ w))"
  "appendMap_loop b doc keys = Done out \<Longrightarrow>
     \<exists>w. out = b @ w \<and> (\<forall>b'. appendMap_loop b' doc keys = Done (b' @ w))"
proof (induction b v and b v and b doc and b doc keys arbitrary: out and out and out and out
       rule: appendAny_appendOther_appendMap_appendMap_loop.induct)
  case (20 buffer doc)
  let ?b1 = "buffer @ convertInt32ToBytes 0"
  from "20.prems" obtain buffer2 where
    l: "appendMap_loop ?b1 doc (sortedKeys doc) = Done buffer2"
    by (auto simp: appendMap_unfold simp del: appendMap.simps split: eresult.splits)
  from "20.IH" [OF refl refl, unfolded appendInt32_def, OF l] obtain w where
    w: "buffer2 = ?b1 @ w" and w': "\<And>b'. appendMap_loop b' doc (sortedKeys doc) = Done (b' @ w)"
    by blast
  let ?n = "5 + length w"
  from "20.prems" l w have le: "\<not> ?n > MaxInt32"
    and out: "out = buffer @ convertInt32ToBytes (of_nat ?n) @ w @ [0]"
    by (auto simp: appendMap_unfold simp del: appendMap.simps split: if_splits)
  have "appendMap b' doc = Done (b' @ convertInt32ToBytes (of_nat ?n) @ w @ [0])" for b'
    using w' [of "b' @ convertInt32ToBytes 0"] le
    by (simp add: appendMap_unfold del: appendMap.simps)
  with out show ?case by blast
next
  case (22 buffer doc key keys)
  from "22.prems" obtain val et buffer' where
    v: "validateEname key = None" and m: "map_of doc key = Some val"
    and g: "getEtype val = Ok et"
    and a: "appendAny (buffer @ [et] @ key @ [0]) val = Done buffer'"
    and r: "appendMap_loop buffer' doc keys = Done out"
    by (auto split: option.splits result.splits eresult.splits)
  from "22.IH"(1) [OF v m g a] obtain w1 where
    w1: "buffer' = (buffer @ [et] @ key @ [0]) @ w1"
    and w1': "\<And>b'. appendAny b' val = Done (b' @ w1)" by blast
  from "22.IH"(2) [OF v m g a r] obtain w2 where
    w2: "out = buffer' @ w2" and w2': "\<And>b'. appendMap_loop b' doc keys = Done (b' @ w2)"
    by blast
  have "appendMap_loop b' doc (key # keys) = Done (b' @ ([et] @ key @ [0] @ w1 @ w2))" for b'
    using v m g w1' [of "b' @ [et] @ key @ [0]"] w2' [of "(b' @ [et] @ key @ [0]) @ w1"]
    by simp
  moreover have "out = buffer @ ([et] @ key @ [0] @ w1 @ w2)"
    using w1 w2 by simp
  ultimately show ?case by blast
qed (auto simp: appendInt32_def appendInt64_def appendFloat64_def appendBoolean_def split: if_splits option.splits)

lemma fromLittleEndian_toLittleEndian:
  "(fromLittleEndian (toLittleEndian n w) :: 'a::len word) = take_bit (8 * n) (w :: 'a word)"
proof (induction n arbitrary: w)
  case 0 show ?case by simp
next
  case (Suc n)
  show ?case
    apply (simp add: Suc)
    apply (rule bit_word_eqI)
    apply (auto simp: bit_simps)
    done
qed

lemma fromLittleEndian_convertInt32ToBytes [simp]:
  "fromLittleEndian (convertInt32ToBytes w) = w"
  by (simp add: convertInt32ToBytes_def fromLittleEndian_toLittleEndian take_bit_word_eq_self)

lemma fromLittleEndian_convertInt64ToBytes [simp]:
  "fromLittleEndian (convertInt64ToBytes w) = w"
  by (simp add: convertInt64ToBytes_def fromLittleEndian_toLittleEndian take_bit_word_eq_self)

lemma length_convertInt64ToBytes [simp]: "length (convertInt64ToBytes w) = 8"
  by (simp add: convertInt64ToBytes_eq)

lemma sint_of_nat_32: "n \<le> MaxInt32 \<Longrightarrow> sint (of_nat n :: 32 word) = int n"
  by (simp add: MaxInt32_def signed_of_nat signed_take_bit_int_eq_self)

declare appendMap.simps [simp del]

lemma appendMap_Done:
  assumes "appendMap buffer doc = Done out"
  shows "\<exists>w. appendMap_loop (buffer @ convertInt32ToBytes 0) doc (sortedKeys doc)
                = Done (buffer @ convertInt32ToBytes 0 @ w)
             \<and> 5 + length w \<le> MaxInt32
             \<and> out = buffer @ convertInt32ToBytes (of_nat (5 + length w)) @ w @ [kEtypeDone]"
proof -
  let ?b1 = "buffer @ convertInt32ToBytes 0"
  from assms obtain buffer2 where
    l: "appendMap_loop ?b1 doc (sortedKeys doc) = Done buffer2"
    by (auto simp: appendMap_unfold split: eresult.splits)
  from append_frame(4) [OF l] obtain w where w: "buffer2 = ?b1 @ w" by blast
  from assms l w have "\<not> 5 + length w > MaxInt32"
    and "out = buffer @ convertInt32ToBytes (of_nat (5 + length w)) @ w @ [0]"
    by (auto simp: appendMap_unfold split: if_splits)
  with l w show ?thesis by auto
qed

section \<open>Length prefixes\<close>

text \<open>What the wire format asks of the bytes of a document or array: a 4-byte
  little-endian signed length that counts the whole of it, and a final zero byte.\<close>

definition length_prefixed :: "bytes \<Rightarrow> bool" where
  "length_prefixed body \<longleftrightarrow>
     5 \<le> length body
     \<and> sint (fromLittleEndian (take 4 body) :: 32 word) = int (length body)
     \<and> last body = kEtypeDone"

lemma appendMap_length_prefixed:
  assumes "appendMap buffer doc = Done out"
  shows "\<exists>body. out = buffer @ body \<and> length_prefixed body"
proof -
  from appendMap_Done [OF assms] obtain w where
    le: "5 + length w \<le> MaxInt32"
    and out: "out = buffer @ convertInt32ToBytes (of_nat (5 + length w)) @ w @ [kEtypeDone]"
    by blast
  have "length_prefixed (convertInt32ToBytes (of_nat (5 + length w)) @ w @ [kEtypeDone])"
    using le sint_of_nat_32 [OF le] by (simp add: length_prefixed_def)
  with out show ?thesis by blast
qed

lemma appendOther_length_prefixed:
  assumes "appendOther buffer v = Done out"
  shows "\<exists>body. out = buffer @ body \<and> length_prefixed body"
  using assms
  by (cases v) (auto split: if_splits option.splits dest!: appendMap_length_prefixed)

text \<open>
  Claim C3: length-prefix correctness. \<^verbatim>\<open>appendAny\<close> is called for the top-level document
  and for every nested value, with the buffer written so far. Whenever the value is one
  that \<^verbatim>\<open>getEtype\<close> classifies as a document or an array (a map, a struct, a slice, or a
  pointer to one) and the call succeeds, the bytes it has appended start with their own
  exact length as a little-endian signed 32-bit integer, the 4 length bytes and the final
  zero byte included. The enclosing calls only append after these bytes.
\<close>

theorem length_prefix_correct:
  "appendAny buffer v = Done out \<Longrightarrow> getEtype v = Ok et
     \<Longrightarrow> et = kEtypeDocument \<or> et = kEtypeArray
     \<Longrightarrow> \<exists>body. out = buffer @ body \<and> length_prefixed body"
proof (induction v)
  case (VPtr t v) then show ?case by simp
qed (auto simp del: appendOther.simps dest!: appendOther_length_prefixed)

theorem length_prefix_correct_witness:
  "appendAny [] (VStruct [([0x42, 0x53, 0x4f, 0x4e], TSlice TAny)]
                   [VSlice TAny [VString [0x61], VInt32 1986]])
     = Done [0x20, 0, 0, 0, 0x04, 0x42, 0x53, 0x4f, 0x4e, 0,
             0x15, 0, 0, 0, 0x02, 0x30, 0, 2, 0, 0, 0, 0x61, 0,
             0x10, 0x31, 0, 0xc2, 0x07, 0, 0, 0, 0]
   \<and> getEtype (VStruct [([0x42, 0x53, 0x4f, 0x4e], TSlice TAny)]
                   [VSlice TAny [VString [0x61], VInt32 1986]]) = Ok kEtypeDocument
   \<and> (\<exists>body. [0x20, 0, 0, 0, 0x04, 0x42, 0x53, 0x4f, 0x4e, 0,
             0x15, 0, 0, 0, 0x02, 0x30, 0, 2, 0, 0, 0, 0x61, 0,
             0x10, 0x31, 0, 0xc2, 0x07, 0, 0, 0, 0] = [] @ body \<and> length_prefixed body)"
proof -
  have a: "appendAny [] (VStruct [([0x42, 0x53, 0x4f, 0x4e], TSlice TAny)]
                   [VSlice TAny [VString [0x61], VInt32 1986]])
     = Done [0x20, 0, 0, 0, 0x04, 0x42, 0x53, 0x4f, 0x4e, 0,
             0x15, 0, 0, 0, 0x02, 0x30, 0, 2, 0, 0, 0, 0x61, 0,
             0x10, 0x31, 0, 0xc2, 0x07, 0, 0, 0, 0]"
    by (simp add: enc_eval appendMap_unfold)
  have g: "getEtype (VStruct [([0x42, 0x53, 0x4f, 0x4e], TSlice TAny)]
                   [VSlice TAny [VString [0x61], VInt32 1986]]) = Ok kEtypeDocument"
    by simp
  from length_prefix_correct [OF a g] a g show ?thesis by blast
qed

text \<open>The same for what \<^verbatim>\<open>Marshal\<close> returns for a map or a struct.\<close>

lemma Marshal_length_prefixed:
  "Marshal v = Done out \<Longrightarrow> getEtype v = Ok kEtypeDocument \<Longrightarrow> length_prefixed out"
proof (induction v)
  case (VPtr t v) then show ?case by simp
qed (auto simp del: appendOther.simps split: eresult.splits if_splits
       dest!: appendOther_length_prefixed)

section \<open>Keys with a null byte\<close>

lemma appendMap_loop_null_key:
  "k \<in> set keys \<Longrightarrow> kNullTerminator \<in> set k \<Longrightarrow> appendMap_loop buffer doc keys \<noteq> Done out"
proof (induction keys arbitrary: buffer)
  case Nil then show ?case by simp
next
  case (Cons key keys)
  show ?case
  proof (cases "key = k")
    case True
    with Cons.prems show ?thesis by (simp add: validateEname_def)
  next
    case False
    with Cons.prems have "k \<in> set keys" by simp
    from Cons.IH [OF this Cons.prems(2)] show ?thesis
      by (auto split: option.splits result.splits eresult.splits)
  qed
qed

lemma appendMap_null_key:
  assumes "k \<in> fst ` set doc" and "kNullTerminator \<in> set k"
  shows "appendMap buffer doc \<noteq> Done out"
proof -
  from assms(1) have "k \<in> set (sortedKeys doc)" by (simp add: sortedKeys_def)
  from appendMap_loop_null_key [OF this assms(2)] show ?thesis
    by (auto simp: appendMap_unfold split: eresult.splits)
qed

lemma keys_foldl_update:
  "fst ` set (foldl (\<lambda>m (k, v). AList.update (f k) v m) acc es)
     = fst ` set acc \<union> (f \<circ> fst) ` set es"
proof (induction es arbitrary: acc)
  case Nil show ?case by simp
next
  case (Cons e es)
  obtain k v where e: "e = (k, v)" by (cases e)
  have "fst ` set (AList.update (f k) v acc) = insert (f k) (fst ` set acc)"
    using AList.dom_update [of "f k" v acc] by simp
  then show ?case by (auto simp: e Cons.IH)
qed

lemma keys_convertMap: "fst ` set (convertReflectMapToMapStringAny es) = fst ` set es"
  unfolding convertReflectMapToMapStringAny_def
  using keys_foldl_update [of "\<lambda>k. k" "[]" es] by simp

lemma Marshal_Fail_empty: "Marshal v = Fail b e \<Longrightarrow> b = []"
  by (induction v) (auto split: if_splits eresult.splits)

text \<open>
  Claim C9 says that a document with a key that holds a null byte is rejected with
  InvalidKey before anything of the document is written. \<^verbatim>\<open>appendMap\<close> validates a key
  when its loop over the sorted keys reaches it: by then the size placeholder and the
  elements of the keys that sort before it are in the buffer, and \<^verbatim>\<open>appendMap\<close> returns
  that buffer with the error. An earlier key whose value cannot be encoded ends the
  call first, with its own error.
\<close>

theorem null_key_bytes_written_counterexample:
  "appendMap [] [([0x61], VInt32 1), ([0x62, 0], VInt32 2)]
     = Fail [0, 0, 0, 0, 0x10, 0x61, 0, 1, 0, 0, 0] (NullInEname [0x62, 0])
   \<and> Marshal (VMap TString TAny [([0x61], VOther TUint8), ([0x62, 0], VInt32 2)])
     = Fail [] (InMarshal (InKey [0x61] UnsupportedType))"
  by (simp add: enc_eval appendMap_unfold)

text \<open>
  Claim C9 as amended: a document (top-level or nested) that holds a key with a null
  byte is never encoded; the key is validated before anything of its own element is
  written, so the call that reaches it returns the buffer as it was with the error
  InvalidKey; and on every failure \<^verbatim>\<open>Marshal\<close> hands no bytes to its caller.
\<close>

theorem null_key_rejected:
  assumes "kNullTerminator \<in> set k"
  shows "(k \<in> fst ` set doc \<longrightarrow> appendMap buffer doc \<noteq> Done out)
       \<and> appendMap_loop buffer doc (k # keys) = Fail buffer (NullInEname k)
       \<and> (k \<in> fst ` set entries \<longrightarrow> Marshal (VMap kt et entries) \<noteq> Done out)
       \<and> (Marshal v = Fail b e \<longrightarrow> b = [])"
proof -
  have "Marshal (VMap kt et entries) \<noteq> Done out" if "k \<in> fst ` set entries"
  proof -
    from that have "k \<in> fst ` set (convertReflectMapToMapStringAny entries)"
      by (simp add: keys_convertMap)
    from appendMap_null_key [OF this assms, of "[]" out] show ?thesis
      by (auto split: eresult.splits)
  qed
  moreover have "appendMap_loop buffer doc (k # keys) = Fail buffer (NullInEname k)"
    using assms by (simp add: validateEname_def)
  ultimately show ?thesis
    using appendMap_null_key [OF _ assms] Marshal_Fail_empty by blast
qed

theorem null_key_rejected_witness:
  "kNullTerminator \<in> set [0x62, 0 :: byte]
   \<and> [0x62, 0] \<in> fst ` set [([0x61], VInt32 1), ([0x62, 0], VInt32 2)]
   \<and> appendMap [0, 0, 0, 0] [([0x61], VInt32 1), ([0x62, 0], VInt32 2)] \<noteq> Done []
   \<and> appendMap_loop [0, 0, 0, 0] [([0x61], VInt32 1), ([0x62, 0], VInt32 2)] [[0x62, 0]]
        = Fail [0, 0, 0, 0] (NullInEname [0x62, 0])
   \<and> Marshal (VMap TString TInt32 [([0x61], VInt32 1), ([0x62, 0], VInt32 2)]) \<noteq> Done []
   \<and> Marshal (VMap TString TInt32 [([0x61], VInt32 1), ([0x62, 0], VInt32 2)])
        = Fail [] (InMarshal (NullInEname [0x62, 0]))"
proof -
  have k: "kNullTerminator \<in> set [0x62, 0 :: byte]" by simp
  have m: "Marshal (VMap TString TInt32 [([0x61], VInt32 1), ([0x62, 0], VInt32 2)])
        = Fail [] (InMarshal (NullInEname [0x62, 0]))"
    by (simp add: enc_eval appendMap_unfold)
  from null_key_rejected [OF k, where doc = "[([0x61], VInt32 1), ([0x62, 0], VInt32 2)]"
      and buffer = "[0, 0, 0, 0]" and out = "[]" and keys = "[]"
      and entries = "[([0x61], VInt32 1), ([0x62, 0], VInt32 2)]" and kt = TString
      and et = TInt32]
    k m
  show ?thesis by simp
qed

section \<open>Determinism of the encoder\<close>

text \<open>
  The canonical form of a value: every map in it lists its entries in ascending order
  of their keys. A Go map has one entry for each key, so two map values have the same
  key-to-value content exactly when their canonical forms are equal; the order of the
  entries of a model value is only the order in which \<^verbatim>\<open>range\<close> happens to visit them.
\<close>

lemma size_snd_entry:
  "p \<in> set es \<Longrightarrow> size (snd p) < Suc (size_list (size_prod (\<lambda>x. 0) size) es)"
  by (induction es) (auto simp: less_Suc_eq_le trans_le_add1 split: prod.splits)

function canonical :: "gval \<Rightarrow> gval" where
  "canonical (VMap kt et entries) =
     VMap kt et (map (\<lambda>p. (fst p, canonical (snd p))) (sort_key fst entries))"
| "canonical (VStruct fts vals) = VStruct fts (map canonical vals)"
| "canonical (VSlice et s) = VSlice et (map canonical s)"
| "canonical (VPtr t v) = VPtr t (canonical v)"
| "canonical (VFloat64 x) = VFloat64 x"
| "canonical (VString x) = VString x"
| "canonical (VBytes x) = VBytes x"
| "canonical VBytesNil = VBytesNil"
| "canonical (VBool x) = VBool x"
| "canonical (VTime sec nsec) = VTime sec nsec"
| "canonical (VInt32 x) = VInt32 x"
| "canonical (VInt64 x) = VInt64 x"
| "canonical (VInt x) = VInt x"
| "canonical (VMapNil kt et) = VMapNil kt et"
| "canonical (VSliceNil et) = VSliceNil et"
| "canonical (VPtrNil t) = VPtrNil t"
| "canonical VNil = VNil"
| "canonical (VOther t) = VOther t"
  by pat_completeness auto
termination
  by (relation "measure size") (auto simp: size_snd_entry less_Suc_eq_le size_list_estimation')

lemma getEtype_canonical [simp]: "getEtype (canonical v) = getEtype v"
  by (induction v) auto

lemma type_of_canonical [simp]: "type_of (canonical v) = type_of v"
  by (cases v) auto

lemma update_map_values:
  "AList.update k (g v) (map (\<lambda>p. (fst p, g (snd p))) al)
     = map (\<lambda>p. (fst p, g (snd p))) (AList.update k v al)"
  by (induction al) auto

lemma foldl_update_map_values:
  "foldl (\<lambda>m (k, v). AList.update (f k) v m) (map (\<lambda>p. (fst p, g (snd p))) acc)
       (map (\<lambda>p. (fst p, g (snd p))) es)
     = map (\<lambda>p. (fst p, g (snd p))) (foldl (\<lambda>m (k, v). AList.update (f k) v m) acc es)"
proof (induction es arbitrary: acc)
  case Nil show ?case by simp
next
  case (Cons e es)
  obtain k v where e: "e = (k, v)" by (cases e)
  show ?case using Cons.IH [of "AList.update (f k) v acc"]
    by (simp add: e update_map_values)
qed

lemma map_of_foldl_update:
  "map_of (foldl (\<lambda>m (k, v). AList.update k v m) acc es) = map_of (rev es @ acc)"
proof (induction es arbitrary: acc)
  case Nil show ?case by simp
next
  case (Cons e es)
  obtain k v where e: "e = (k, v)" by (cases e)
  show ?case using Cons.IH [of "AList.update k v acc"]
    by (simp add: e update_conv' map_add_def fun_eq_iff split: option.splits)
qed

lemma map_of_filter_key:
  "map_of xs k = map_of (filter (\<lambda>p. fst p = k) xs) k"
  by (induction xs) auto

lemma map_of_rev_sort_key: "map_of (rev (sort_key fst es)) = map_of (rev es)"
proof
  fix k
  have "map_of (rev (sort_key fst es)) k
          = map_of (rev (filter (\<lambda>p. fst p = k) (sort_key fst es))) k"
    using map_of_filter_key [of "rev (sort_key fst es)" k] by (simp add: rev_filter)
  also have "\<dots> = map_of (rev (filter (\<lambda>p. fst p = k) es)) k"
    by (simp add: sort_key_stable)
  also have "\<dots> = map_of (rev es) k"
    using map_of_filter_key [of "rev es" k] by (simp add: rev_filter)
  finally show "map_of (rev (sort_key fst es)) k = map_of (rev es) k" .
qed

lemma distinct_foldl_update:
  "distinct (map fst acc) \<Longrightarrow> distinct (map fst (foldl (\<lambda>m (k, v). AList.update (f k) v m) acc es))"
proof (induction es arbitrary: acc)
  case Nil then show ?case by simp
next
  case (Cons e es)
  obtain k v where e: "e = (k, v)" by (cases e)
  show ?case using Cons.IH [of "AList.update (f k) v acc"] Cons.prems
    by (simp add: e distinct_update)
qed

lemma sortedKeys_eq:
  assumes "distinct (map fst d1)" "distinct (map fst d2)" "fst ` set d1 = fst ` set d2"
  shows "sortedKeys d1 = sortedKeys d2"
  unfolding sortedKeys_def
  by (rule sorted_distinct_set_unique) (use assms in simp_all)

lemma sortedKeys_map_values [simp]:
  "sortedKeys (map (\<lambda>p. (fst p, g (snd p))) d) = sortedKeys d"
  by (simp add: sortedKeys_def comp_def)

lemma map_of_map_values:
  "map_of (map (\<lambda>p. (fst p, g (snd p))) d) k = map_option g (map_of d k)"
  by (induction d) auto

lemma convertMap_sort_key:
  "sortedKeys (convertReflectMapToMapStringAny (sort_key fst es))
     = sortedKeys (convertReflectMapToMapStringAny es)"
  "map_of (convertReflectMapToMapStringAny (sort_key fst es))
     = map_of (convertReflectMapToMapStringAny es)"
proof -
  show "sortedKeys (convertReflectMapToMapStringAny (sort_key fst es))
     = sortedKeys (convertReflectMapToMapStringAny es)"
    by (rule sortedKeys_eq)
       (simp_all add: keys_convertMap,
        simp_all add: convertReflectMapToMapStringAny_def
          distinct_foldl_update [where f = "\<lambda>k. k" and acc = "[]", simplified])
  show "map_of (convertReflectMapToMapStringAny (sort_key fst es))
     = map_of (convertReflectMapToMapStringAny es)"
    by (simp add: convertReflectMapToMapStringAny_def map_of_foldl_update map_of_rev_sort_key)
qed

lemma canonical_encode:
  "appendAny b (canonical v) = appendAny b v"
  "appendOther b (canonical v) = appendOther b v"
  "\<And>doc'. sortedKeys doc' = sortedKeys doc
      \<Longrightarrow> (\<And>k. map_of doc' k = map_option canonical (map_of doc k))
      \<Longrightarrow> appendMap b doc' = appendMap b doc"
  "\<And>doc'. (\<And>k. map_of doc' k = map_option canonical (map_of doc k))
      \<Longrightarrow> appendMap_loop b doc' keys = appendMap_loop b doc keys"
proof (induction b v and b v and b doc and b doc keys
       rule: appendAny_appendOther_appendMap_appendMap_loop.induct)
  case (14 buffer kt et entries)
  show ?case
  proof (cases "kind_of kt = KString")
    case True
    let ?d = "convertReflectMapToMapStringAny (sort_key fst entries)"
    let ?d' = "map (\<lambda>p. (fst p, canonical (snd p))) ?d"
    have eq: "convertReflectMapToMapStringAny
                (map (\<lambda>p. (fst p, canonical (snd p))) (sort_key fst entries)) = ?d'"
      unfolding convertReflectMapToMapStringAny_def
      using foldl_update_map_values [of "\<lambda>k. k" canonical "[]" "sort_key fst entries"]
      by simp
    have "appendMap buffer ?d' = appendMap buffer (convertReflectMapToMapStringAny entries)"
      by (rule "14.IH") (simp_all add: True convertMap_sort_key map_of_map_values)
    with True eq show ?thesis by simp
  next
    case False then show ?thesis by simp
  qed
next
  case (16 buffer et s)
  let ?d = "convertReflectSliceToMapStringAny s"
  have eq: "convertReflectSliceToMapStringAny (map canonical s)
              = map (\<lambda>p. (fst p, canonical (snd p))) ?d"
    unfolding convertReflectSliceToMapStringAny_def
    using foldl_update_map_values [of Itoa canonical "[]" "zip [0..<length s] s"]
    by (simp add: zip_map2 case_prod_unfold)
  have "appendMap buffer (map (\<lambda>p. (fst p, canonical (snd p))) ?d) = appendMap buffer ?d"
    by (rule "16.IH") (simp_all add: map_of_map_values)
  with eq show ?case by simp
next
  case (18 buffer fts vals)
  show ?case
  proof (cases "convertReflectStructToMapStringAny fts vals")
    case None
    then show ?thesis by (simp add: convertReflectStructToMapStringAny_def split: if_splits)
  next
    case (Some d)
    then have eq: "convertReflectStructToMapStringAny fts (map canonical vals)
              = Some (map (\<lambda>p. (fst p, canonical (snd p))) d)"
      unfolding convertReflectStructToMapStringAny_def
      using foldl_update_map_values [of "\<lambda>k. k" canonical "[]" "zip (map fst fts) vals"]
      by (auto simp: zip_map2 case_prod_unfold split: if_splits)
    have "appendMap buffer (map (\<lambda>p. (fst p, canonical (snd p))) d) = appendMap buffer d"
      by (rule "18.IH" [OF Some]) (simp_all add: map_of_map_values)
    with eq Some show ?thesis by simp
  qed
next
  case (20 buffer doc)
  have "appendMap_loop (buffer @ convertInt32ToBytes 0) doc' (sortedKeys doc)
      = appendMap_loop (buffer @ convertInt32ToBytes 0) doc (sortedKeys doc)"
    using "20.IH" [OF refl refl, unfolded appendInt32_def] "20.prems"(2) by blast
  with "20.prems"(1) show ?case by (simp add: appendMap_unfold)
next
  case (22 buffer doc key keys)
  show ?case
  proof (cases "validateEname key")
    case (Some err) then show ?thesis by simp
  next
    case None
    show ?thesis
    proof (cases "map_of doc key")
      case N: None
      with None "22.prems" [of key] show ?thesis by simp
    next
      case (Some val)
      then have m': "map_of doc' key = Some (canonical val)" using "22.prems" [of key] by simp
      show ?thesis
      proof (cases "getEtype val")
        case (Ok et)
        have a: "appendAny (buffer @ [et] @ key @ [0]) (canonical val)
                   = appendAny (buffer @ [et] @ key @ [0]) val"
          by (rule "22.IH"(1) [OF None Some Ok])
        show ?thesis
        proof (cases "appendAny (buffer @ [et] @ key @ [0]) val")
          case (Done buffer')
          have "appendMap_loop buffer' doc' keys = appendMap_loop buffer' doc keys"
            using "22.IH"(2) [OF None Some Ok Done] "22.prems" by blast
          with None Some m' Ok a Done show ?thesis by simp
        qed (use None Some m' Ok a in simp_all)
      qed (use None Some m' in simp_all)
    qed
  qed
qed simp_all


lemma Marshal_canonical: "Marshal (canonical v) = Marshal v"
proof (induction v)
  case (VPtr t v) then show ?case by simp
next
  case (VMap kt et es)
  from canonical_encode(1) [of "[]" "VMap kt et es"] show ?case by simp
next
  case (VStruct fts vals)
  from canonical_encode(1) [of "[]" "VStruct fts vals"] show ?case by simp
qed simp_all

text \<open>The bytes of a sequence of elements: for each, the type tag, the name, a zero
  byte and the payload.\<close>

fun elements :: "(etype \<times> bytes \<times> bytes) list \<Rightarrow> bytes" where
  "elements [] = []"
| "elements ((et, name, payload) # els) = et # name @ [0] @ payload @ elements els"

lemma elements_append: "elements (xs @ ys) = elements xs @ elements ys"
  by (induction xs) auto

lemma appendMap_loop_layout:
  "appendMap_loop b doc keys = Done out
     \<Longrightarrow> \<exists>els. map (\<lambda>el. fst (snd el)) els = keys \<and> out = b @ elements els"
proof (induction keys arbitrary: b)
  case Nil then show ?case by (auto intro: exI [of _ "[]"])
next
  case (Cons key keys)
  from Cons.prems obtain val et buffer' where
    a: "appendAny (b @ [et] @ key @ [0]) val = Done buffer'"
    and r: "appendMap_loop buffer' doc keys = Done out"
    by (auto split: option.splits result.splits eresult.splits)
  from append_frame(1) [OF a] obtain w where w: "buffer' = (b @ [et] @ key @ [0]) @ w" by blast
  from Cons.IH [OF r] obtain els where
    els: "map (\<lambda>el. fst (snd el)) els = keys" "out = buffer' @ elements els" by blast
  have "map (\<lambda>el. fst (snd el)) ((et, key, w) # els) = key # keys
        \<and> out = b @ elements ((et, key, w) # els)" using els w by simp
  then show ?case by (rule exI)
qed

text \<open>
  Claim C2: determinism through sorted keys. Two values with the same content, whatever
  the order in which their maps are iterated (at the top level or nested), are encoded
  by \<^verbatim>\<open>Marshal\<close> to the same result; and every document that \<^verbatim>\<open>appendMap\<close> writes consists of
  its length, the elements of its keys in ascending byte-wise order, and the final zero
  byte.
\<close>

theorem key_sort_canonicalization:
  "(canonical D1 = canonical D2 \<longrightarrow> Marshal D1 = Marshal D2)
   \<and> (appendMap buffer doc = Done out \<longrightarrow>
        (\<exists>n els. out = buffer @ convertInt32ToBytes n @ elements els @ [kEtypeDone]
            \<and> map (\<lambda>el. fst (snd el)) els = sort (map fst doc)
            \<and> sorted (map (\<lambda>el. fst (snd el)) els)))"
proof (intro conjI impI)
  assume "canonical D1 = canonical D2"
  then show "Marshal D1 = Marshal D2"
    using Marshal_canonical [of D1] Marshal_canonical [of D2] by simp
next
  assume a: "appendMap buffer doc = Done out"
  from appendMap_Done [OF a] obtain w where
    l: "appendMap_loop (buffer @ convertInt32ToBytes 0) doc (sortedKeys doc)
          = Done (buffer @ convertInt32ToBytes 0 @ w)"
    and out: "out = buffer @ convertInt32ToBytes (of_nat (5 + length w)) @ w @ [kEtypeDone]"
    by blast
  from appendMap_loop_layout [OF l] obtain els where
    els: "map (\<lambda>el. fst (snd el)) els = sortedKeys doc" "w = elements els" by auto
  have "sorted (map (\<lambda>el. fst (snd el)) els)" using els(1) by (simp add: sortedKeys_def)
  with els out show "\<exists>n els. out = buffer @ convertInt32ToBytes n @ elements els @ [kEtypeDone]
            \<and> map (\<lambda>el. fst (snd el)) els = sort (map fst doc)
            \<and> sorted (map (\<lambda>el. fst (snd el)) els)"
    unfolding sortedKeys_def by blast
qed

theorem key_sort_canonicalization_witness:
  "canonical (VMap TString TAny [([0x62], VInt32 1), ([0x61], VMap TString TInt32 [([0x7a], VInt32 2), ([0x79], VInt32 3)])])
     = canonical (VMap TString TAny [([0x61], VMap TString TInt32 [([0x79], VInt32 3), ([0x7a], VInt32 2)]), ([0x62], VInt32 1)])
   \<and> Marshal (VMap TString TAny [([0x62], VInt32 1), ([0x61], VMap TString TInt32 [([0x7a], VInt32 2), ([0x79], VInt32 3)])])
     = Marshal (VMap TString TAny [([0x61], VMap TString TInt32 [([0x79], VInt32 3), ([0x7a], VInt32 2)]), ([0x62], VInt32 1)])
   \<and> appendMap [] [([0x62], VInt32 1), ([0x61], VInt32 2)]
       = Done [0x13, 0, 0, 0, 0x10, 0x61, 0, 2, 0, 0, 0, 0x10, 0x62, 0, 1, 0, 0, 0, 0]
   \<and> (\<exists>n els. [0x13, 0, 0, 0, 0x10, 0x61, 0, 2, 0, 0, 0, 0x10, 0x62, 0, 1, 0, 0, 0, 0]
            = [] @ convertInt32ToBytes n @ elements els @ [kEtypeDone]
            \<and> map (\<lambda>el. fst (snd el)) els = sort (map fst [([0x62 :: byte], VInt32 1), ([0x61], VInt32 2)])
            \<and> sorted (map (\<lambda>el. fst (snd el)) els))"
proof -
  have c: "canonical (VMap TString TAny [([0x62], VInt32 1), ([0x61], VMap TString TInt32 [([0x7a], VInt32 2), ([0x79], VInt32 3)])])
     = canonical (VMap TString TAny [([0x61], VMap TString TInt32 [([0x79], VInt32 3), ([0x7a], VInt32 2)]), ([0x62], VInt32 1)])"
    by simp
  have a: "appendMap [] [([0x62], VInt32 1), ([0x61], VInt32 2)]
       = Done [0x13, 0, 0, 0, 0x10, 0x61, 0, 2, 0, 0, 0, 0x10, 0x62, 0, 1, 0, 0, 0, 0]"
    by (simp add: enc_eval appendMap_unfold)
  from key_sort_canonicalization
    [where ?D1.0 = "VMap TString TAny [([0x62], VInt32 1), ([0x61], VMap TString TInt32 [([0x7a], VInt32 2), ([0x79], VInt32 3)])]"
       and ?D2.0 = "VMap TString TAny [([0x61], VMap TString TInt32 [([0x79], VInt32 3), ([0x7a], VInt32 2)]), ([0x62], VInt32 1)]"
       and buffer = "[]" and doc = "[([0x62], VInt32 1), ([0x61], VInt32 2)]"
       and out = "[0x13, 0, 0, 0, 0x10, 0x61, 0, 2, 0, 0, 0, 0x10, 0x62, 0, 1, 0, 0, 0, 0]"]
    c a
  show ?thesis by blast
qed

section \<open>Nil pointers in the encoder\<close>

text \<open>
  Claim C6 says that a nil pointer met while encoding is reported as an error. The
  code follows a pointer with \<^verbatim>\<open>reflect.ValueOf(val).Elem().Interface()\<close> without testing
  it, and that call panics on a nil pointer: \<^verbatim>\<open>Marshal\<close> of a struct with one exported
  field \<^verbatim>\<open>P *int64\<close> that is nil panics, and so does \<^verbatim>\<open>Marshal\<close> of a nil pointer itself.
  A pointer that is not nil is followed, and the value it points to is written.
\<close>

theorem Marshal_nil_pointer_panics:
  "Marshal (VStruct [([0x50], TPtr TInt64)] [VPtrNil TInt64]) = EPanic
   \<and> Marshal (VPtrNil (TMap TString TAny)) = EPanic
   \<and> Marshal (VStruct [([0x50], TPtr TInt64)] [VPtr TInt64 (VInt64 5)])
       = Done [0x10, 0, 0, 0, 0x12, 0x50, 0, 5, 0, 0, 0, 0, 0, 0, 0, 0]"
  by (simp add: enc_eval appendMap_unfold)

lemma getEtype_follows_pointer: "getEtype (VPtr t v) = getEtype v"
  by simp

lemma appendAny_follows_pointer: "appendAny buffer (VPtr t v) = appendAny buffer v"
  by simp

section \<open>Dynamic targets\<close>

text \<open>
  Claim C7 says that an element of a supported type decodes into a target of type
  \<^verbatim>\<open>any\<close> wherever that target stands. \<^verbatim>\<open>validateEtypeCanBeDeserializeToRtype\<close> accepts
  \<^verbatim>\<open>any\<close> for every element type, and \<^verbatim>\<open>readMap\<close> and \<^verbatim>\<open>readArray\<close> read the element into a
  temporary of the type the element type calls for. \<^verbatim>\<open>readStruct\<close> has no such
  temporary: it hands \<^verbatim>\<open>readEvalue\<close> the address of the field itself, an
  \<^verbatim>\<open>*interface{}\<close>, and the type assertion \<^verbatim>\<open>ptr_any.(*float64)\<close> panics. The document
  \<^verbatim>\<open>{"X": 5.05}\<close> decodes into a \<^verbatim>\<open>map[string]any\<close>, and panics the decoder when the
  target is a struct with a field \<^verbatim>\<open>X any\<close>.
\<close>

theorem Unmarshal_any_field_panics:
  "Unmarshal [0x10, 0, 0, 0, 0x01, 0x58, 0, 0x33, 0x33, 0x33, 0x33, 0x33, 0x33, 0x14, 0x40, 0]
     (VPtr (TStruct [([0x58], TAny)]) (VStruct [([0x58], TAny)] [VNil])) = Panic
   \<and> Unmarshal [0x10, 0, 0, 0, 0x01, 0x58, 0, 0x33, 0x33, 0x33, 0x33, 0x33, 0x33, 0x14, 0x40, 0]
     (VPtr (TMap TString TAny) (VMapNil TString TAny))
     = Ok (VMap TString TAny [([0x58], VFloat64 0x4014333333333333)])"
  by (simp add: dec_eval)

text \<open>In a struct field of type \<^verbatim>\<open>any\<close>, a binary element panics as well, a document is
  refused with an error, and an array panics in \<^verbatim>\<open>arrRtype.Elem()\<close>.\<close>

lemma Unmarshal_any_field_binary:
  "Unmarshal [0x0e, 0, 0, 0, 0x05, 0x58, 0, 1, 0, 0, 0, 0, 0x77, 0]
     (VPtr (TStruct [([0x58], TAny)]) (VStruct [([0x58], TAny)] [VNil])) = Panic"
  by (simp add: dec_eval)

lemma Unmarshal_any_field_document:
  "Unmarshal [0x0d, 0, 0, 0, 0x03, 0x58, 0, 5, 0, 0, 0, 0, 0]
     (VPtr (TStruct [([0x58], TAny)]) (VStruct [([0x58], TAny)] [VNil]))
     = Err (InUnmarshal (InField [0x58] (UnsupportedTarget TAny)))"
  by (simp add: dec_eval)

lemma Unmarshal_any_field_array:
  "Unmarshal [0x0d, 0, 0, 0, 0x04, 0x58, 0, 5, 0, 0, 0, 0, 0]
     (VPtr (TStruct [([0x58], TAny)]) (VStruct [([0x58], TAny)] [VNil])) = Panic"
  by (simp add: dec_eval)

section \<open>Corrupt size fields\<close>

text \<open>
  Claim C8 says that \<^verbatim>\<open>Unmarshal\<close> returns a value or an error on every input. A
  string element whose size field is zero makes \<^verbatim>\<open>readEstring\<close> call
  \<^verbatim>\<open>make([]byte, -1)\<close>, and a binary element whose size field is negative makes
  \<^verbatim>\<open>readEbinary\<close> call \<^verbatim>\<open>make\<close> with that size: both panic.
\<close>

theorem Unmarshal_zero_size_string_panics:
  "Unmarshal [0x0d, 0, 0, 0, 0x02, 0x58, 0, 0, 0, 0, 0, 0, 0]
     (VPtr (TMap TString TAny) (VMapNil TString TAny)) = Panic
   \<and> Unmarshal [0x0d, 0, 0, 0, 0x05, 0x58, 0, 0xff, 0xff, 0xff, 0xff, 0, 0]
     (VPtr (TMap TString TAny) (VMapNil TString TAny)) = Panic"
  by (simp add: dec_eval)

section \<open>Facts about the readers\<close>

subsection \<open>What a successful read of a primitive says about the buffer\<close>

lemma andThen_Ok_iff: "andThen m f = Ok y \<longleftrightarrow> (\<exists>x. m = Ok x \<and> f x = Ok y)"
  by (cases m) auto

lemma wrapErr_Ok_iff [simp]: "wrapErr w r = Ok x \<longleftrightarrow> r = Ok x"
  by (cases r) auto

lemma readFixed_Ok_iff:
  "0 < k \<Longrightarrow> readFixed k buf = Ok (n, x, rest)
     \<longleftrightarrow> (\<exists>c. buf = c @ rest \<and> length c = k \<and> n = int k \<and> x = fromLittleEndian c)"
proof
  assume k: "0 < k" and "readFixed k buf = Ok (n, x, rest)"
  then have "k \<le> length buf" "n = int k" "x = fromLittleEndian (take k buf)" "rest = drop k buf"
    by (auto simp: readFixed_def split: if_splits)
  then have "buf = take k buf @ rest \<and> length (take k buf) = k \<and> n = int k
               \<and> x = fromLittleEndian (take k buf)" by simp
  then show "\<exists>c. buf = c @ rest \<and> length c = k \<and> n = int k \<and> x = fromLittleEndian c" ..
next
  assume k: "0 < k" and "\<exists>c. buf = c @ rest \<and> length c = k \<and> n = int k \<and> x = fromLittleEndian c"
  then show "readFixed k buf = Ok (n, x, rest)"
    by (auto simp: readFixed_def)
qed

lemma readInt32_Ok_iff:
  "readInt32 buf = Ok (n, x, rest)
     \<longleftrightarrow> (\<exists>c. buf = c @ rest \<and> length c = 4 \<and> n = 4 \<and> x = fromLittleEndian c)"
  unfolding readInt32_def by (subst readFixed_Ok_iff) auto

lemma readInt64_Ok_iff:
  "readInt64 buf = Ok (n, x, rest)
     \<longleftrightarrow> (\<exists>c. buf = c @ rest \<and> length c = 8 \<and> n = 8 \<and> x = fromLittleEndian c)"
  unfolding readInt64_def by (subst readFixed_Ok_iff) auto

lemma readFloat64_Ok_iff:
  "readFloat64 buf = Ok (n, x, rest)
     \<longleftrightarrow> (\<exists>c. buf = c @ rest \<and> length c = 8 \<and> n = 8 \<and> x = fromLittleEndian c)"
  unfolding readFloat64_def by (subst readFixed_Ok_iff) auto

lemma readEtype_Ok_iff: "readEtype buf = Ok (n, et, rest) \<longleftrightarrow> buf = et # rest \<and> n = 1"
  by (cases buf) auto

lemma readEname_loop_Ok_iff:
  "readEname_loop buf acc = Ok (n, name, rest)
     \<longleftrightarrow> (\<exists>c. buf = c @ 0 # rest \<and> 0 \<notin> set c \<and> name = acc @ c \<and> n = int (length name) + 1)"
proof (induction buf arbitrary: acc)
  case Nil show ?case by simp
next
  case (Cons b buf)
  show ?case
  proof (cases "b = 0")
    case True
    have "(\<exists>c. b # buf = c @ 0 # rest \<and> 0 \<notin> set c \<and> name = acc @ c \<and> n = int (length name) + 1)
          \<longleftrightarrow> (buf = rest \<and> name = acc \<and> n = int (length name) + 1)"
      using True by (auto simp: Cons_eq_append_conv)
    with True show ?thesis by auto
  next
    case False
    have "(\<exists>c. b # buf = c @ 0 # rest \<and> 0 \<notin> set c \<and> name = acc @ c \<and> n = int (length name) + 1)
          \<longleftrightarrow> (\<exists>c. buf = c @ 0 # rest \<and> 0 \<notin> set c \<and> name = (acc @ [b]) @ c \<and> n = int (length name) + 1)"
      using False by (auto simp: Cons_eq_append_conv) 
    with False Cons.IH [of "acc @ [b]"] show ?thesis by simp
  qed
qed

lemma readEname_Ok_iff:
  "readEname buf = Ok (n, name, rest)
     \<longleftrightarrow> buf = name @ 0 # rest \<and> 0 \<notin> set name \<and> n = int (length name) + 1"
  unfolding readEname_def by (auto simp: readEname_loop_Ok_iff)

lemma bufferRead_Ok_iff:
  "bufferRead k buf = Ok (x, rest) \<longleftrightarrow> buf = x @ rest \<and> length x = k"
proof
  assume "bufferRead k buf = Ok (x, rest)"
  then have "k \<le> length buf" "x = take k buf" "rest = drop k buf"
    by (auto simp: bufferRead_def split: if_splits)
  then show "buf = x @ rest \<and> length x = k" by simp
next
  assume "buf = x @ rest \<and> length x = k"
  then show "bufferRead k buf = Ok (x, rest)" by (auto simp: bufferRead_def)
qed

lemma readInt32_append: "length c = 4 \<Longrightarrow> readInt32 (c @ r) = Ok (4, fromLittleEndian c, r)"
  by (simp add: readInt32_Ok_iff)

lemma readInt64_append: "length c = 8 \<Longrightarrow> readInt64 (c @ r) = Ok (8, fromLittleEndian c, r)"
  by (simp add: readInt64_Ok_iff)

lemma readFloat64_append: "length c = 8 \<Longrightarrow> readFloat64 (c @ r) = Ok (8, fromLittleEndian c, r)"
  by (simp add: readFloat64_Ok_iff)

lemma bufferRead_append: "length x = k \<Longrightarrow> bufferRead k (x @ r) = Ok (x, r)"
  by (simp add: bufferRead_Ok_iff)

lemma readEstring_Ok_iff:
  "readEstring buf = Ok (n, str, rest)
     \<longleftrightarrow> (\<exists>c. buf = c @ str @ 0 # rest \<and> length c = 4
              \<and> 0 \<le> sint (fromLittleEndian c - 1 :: 32 word)
              \<and> int (length str) = sint (fromLittleEndian c - 1 :: 32 word)
              \<and> n = sint (fromLittleEndian c :: 32 word) + 4)"
proof
  assume "readEstring buf = Ok (n, str, rest)"
  then obtain m sz b1 where r1: "readInt32 buf = Ok (m, sz, b1)"
    and r2: "(if sint (sz - 1) < 0 then Panic
       else andThen (bufferRead (nat (sint (sz - 1))) b1) (\<lambda>(str, buffer2).
         case buffer2 of
           [] \<Rightarrow> Err EOF
         | nullterm # buffer3 \<Rightarrow>
             if nullterm \<noteq> 0 then Err ExpectedNullTerminator
             else Ok (sint sz + 4, str, buffer3))) = Ok (n, str, rest)"
    unfolding readEstring_def andThen_Ok_iff by auto
  from r1 obtain c where c: "buf = c @ b1" "length c = 4" "sz = fromLittleEndian c"
    by (auto simp: readInt32_Ok_iff)
  from r2 have nn: "0 \<le> sint (sz - 1)" by (auto split: if_splits)
  with r2 obtain str' b2 where r3: "bufferRead (nat (sint (sz - 1))) b1 = Ok (str', b2)"
    and r4: "(case b2 of
           [] \<Rightarrow> Err EOF
         | nullterm # buffer3 \<Rightarrow>
             if nullterm \<noteq> 0 then Err ExpectedNullTerminator
             else Ok (sint sz + 4, str', buffer3)) = Ok (n, str, rest)"
    by (auto simp: andThen_Ok_iff split: if_splits)
  from r3 have b1: "b1 = str' @ b2" "length str' = nat (sint (sz - 1))"
    by (auto simp: bufferRead_Ok_iff)
  from r4 have "b2 = 0 # rest" "str' = str" "n = sint sz + 4"
    by (auto split: list.splits if_splits)
  with c b1 nn have "buf = c @ str @ 0 # rest \<and> length c = 4
              \<and> 0 \<le> sint (fromLittleEndian c - 1 :: 32 word)
              \<and> int (length str) = sint (fromLittleEndian c - 1 :: 32 word)
              \<and> n = sint (fromLittleEndian c :: 32 word) + 4" by simp
  then show "\<exists>c. buf = c @ str @ 0 # rest \<and> length c = 4
              \<and> 0 \<le> sint (fromLittleEndian c - 1 :: 32 word)
              \<and> int (length str) = sint (fromLittleEndian c - 1 :: 32 word)
              \<and> n = sint (fromLittleEndian c :: 32 word) + 4" ..
next
  assume "\<exists>c. buf = c @ str @ 0 # rest \<and> length c = 4
              \<and> 0 \<le> sint (fromLittleEndian c - 1 :: 32 word)
              \<and> int (length str) = sint (fromLittleEndian c - 1 :: 32 word)
              \<and> n = sint (fromLittleEndian c :: 32 word) + 4"
  then obtain c where c: "buf = c @ str @ 0 # rest" "length c = 4"
      "0 \<le> sint (fromLittleEndian c - 1 :: 32 word)"
      "int (length str) = sint (fromLittleEndian c - 1 :: 32 word)"
      "n = sint (fromLittleEndian c :: 32 word) + 4" by blast
  from c(4) have l: "length str = nat (sint (fromLittleEndian c - 1 :: 32 word))" by simp
  show "readEstring buf = Ok (n, str, rest)"
    unfolding readEstring_def c(1)
    using c(3) c(5) by (simp add: readInt32_append [OF c(2)] bufferRead_append [OF l])
qed

lemma readEbinary_Ok_iff:
  "readEbinary buf = Ok (n, bin, rest)
     \<longleftrightarrow> (\<exists>c subtype. buf = c @ subtype # bin @ rest \<and> length c = 4
              \<and> 0 \<le> sint (fromLittleEndian c :: 32 word)
              \<and> int (length bin) = sint (fromLittleEndian c :: 32 word)
              \<and> n = sint (fromLittleEndian c :: 32 word) + 4 + 1)"
proof
  assume "readEbinary buf = Ok (n, bin, rest)"
  then obtain m sz b1 where r1: "readInt32 buf = Ok (m, sz, b1)"
    and r2: "(case b1 of
         [] \<Rightarrow> Err EOF
       | subtype # buffer2 \<Rightarrow>
           if sint sz < 0 then Panic
           else andThen (bufferRead (nat (sint sz)) buffer2) (\<lambda>(bin, buffer3).
             Ok (sint sz + 4 + 1, bin, buffer3))) = Ok (n, bin, rest)"
    unfolding readEbinary_def andThen_Ok_iff by auto
  from r1 obtain c where c: "buf = c @ b1" "length c = 4" "sz = fromLittleEndian c"
    by (auto simp: readInt32_Ok_iff)
  from r2 obtain subtype b2 where b1: "b1 = subtype # b2" and nn: "0 \<le> sint sz"
    and r3: "andThen (bufferRead (nat (sint sz)) b2) (\<lambda>(bin, buffer3).
             Ok (sint sz + 4 + 1, bin, buffer3)) = Ok (n, bin, rest)"
    by (auto split: list.splits if_splits)
  from r3 have "bufferRead (nat (sint sz)) b2 = Ok (bin, rest)" "n = sint sz + 4 + 1"
    by (auto simp: andThen_Ok_iff)
  then have "b2 = bin @ rest" "length bin = nat (sint sz)" "n = sint sz + 4 + 1"
    by (auto simp: bufferRead_Ok_iff)
  with c b1 nn have "buf = c @ subtype # bin @ rest \<and> length c = 4
              \<and> 0 \<le> sint (fromLittleEndian c :: 32 word)
              \<and> int (length bin) = sint (fromLittleEndian c :: 32 word)
              \<and> n = sint (fromLittleEndian c :: 32 word) + 4 + 1" by simp
  then show "\<exists>c subtype. buf = c @ subtype # bin @ rest \<and> length c = 4
              \<and> 0 \<le> sint (fromLittleEndian c :: 32 word)
              \<and> int (length bin) = sint (fromLittleEndian c :: 32 word)
              \<and> n = sint (fromLittleEndian c :: 32 word) + 4 + 1" by blast
next
  assume "\<exists>c subtype. buf = c @ subtype # bin @ rest \<and> length c = 4
              \<and> 0 \<le> sint (fromLittleEndian c :: 32 word)
              \<and> int (length bin) = sint (fromLittleEndian c :: 32 word)
              \<and> n = sint (fromLittleEndian c :: 32 word) + 4 + 1"
  then obtain c subtype where c: "buf = c @ subtype # bin @ rest" "length c = 4"
      "0 \<le> sint (fromLittleEndian c :: 32 word)"
      "int (length bin) = sint (fromLittleEndian c :: 32 word)"
      "n = sint (fromLittleEndian c :: 32 word) + 4 + 1" by blast
  from c(4) have l: "length bin = nat (sint (fromLittleEndian c :: 32 word))" by simp
  show "readEbinary buf = Ok (n, bin, rest)"
    unfolding readEbinary_def c(1)
    using c(3) c(5) by (simp add: readInt32_append [OF c(2)] bufferRead_append [OF l])
qed

lemma readBoolean_Ok_iff:
  "readBoolean buf = Ok (n, x, rest)
     \<longleftrightarrow> (\<exists>b. buf = b # rest \<and> n = 1 \<and> (b = 0 \<or> b = 1) \<and> x = (b = 1))"
  unfolding readBoolean_def by (auto split: list.splits)



lemma readEname_append:
  "0 \<notin> set ename \<Longrightarrow> readEname (ename @ 0 # r) = Ok (int (length ename) + 1, ename, r)"
  by (simp add: readEname_Ok_iff)

subsection \<open>One iteration of each loop\<close>

lemma readStruct_loop_OkE:
  assumes "readStruct_loop (Suc f) buf a L sv = Ok (n, v', rest)"
  obtains (fin) "buf = 0 # rest" "a + 1 = sint L" "n = a + 1" "v' = sv"
    | (elem) et ename b2 i T fv n2 v b3 where "et \<noteq> 0" "buf = et # ename @ 0 # b2"
        "0 \<notin> set ename" "structField sv ename et = Ok (i, T, fv)"
        "readEvalue f b2 T fv et = Ok (n2, v, b3)"
        "readStruct_loop f b3 (a + 1 + (int (length ename) + 1) + n2) L (setField sv i v)
            = Ok (n, v', rest)"
  using assms
  apply (cases buf; simp)
  apply (simp split: if_splits)
  apply (clarsimp simp: andThen_Ok_iff readEname_Ok_iff)
  done

lemma readMap_loop_OkE:
  assumes "readMap_loop (Suc f) buf a L mT eT m = Ok (n, v', rest)"
  obtains (fin) "buf = 0 # rest" "a + 1 = sint L" "n = a + 1" "v' = m"
    | (elem) et ename b2 tT tmp n2 v b3 m' where "et \<noteq> 0" "buf = et # ename @ 0 # b2"
        "0 \<notin> set ename" "mapElemTarget et mT eT ename = Ok (tT, tmp)"
        "readEvalue f b2 tT tmp et = Ok (n2, v, b3)"
        "SetMapIndex m ename v = Ok m'"
        "readMap_loop f b3 (a + 1 + (int (length ename) + 1) + n2) L mT eT m'
            = Ok (n, v', rest)"
  using assms
  apply (cases buf; simp)
  apply (simp split: if_splits)
  apply (clarsimp simp: andThen_Ok_iff readEname_Ok_iff)
  done

lemma readArray_loop_OkE:
  assumes "readArray_loop (Suc f) buf a L aT eT arr = Ok (n, v', rest)"
  obtains (fin) "buf = 0 # rest" "a + 1 = sint L" "n = a + 1" "v' = arr"
    | (elem) et ename b2 tT tmp n2 v b3 arr' where "et \<noteq> 0" "buf = et # ename @ 0 # b2"
        "0 \<notin> set ename" "arrElemTarget et aT eT ename = Ok (tT, tmp)"
        "readEvalue f b2 tT tmp et = Ok (n2, v, b3)"
        "Append arr v = Ok arr'"
        "readArray_loop f b3 (a + 1 + (int (length ename) + 1) + n2) L aT eT arr'
            = Ok (n, v', rest)"
  using assms
  apply (cases buf; simp)
  apply (simp split: if_splits)
  apply (clarsimp simp: andThen_Ok_iff readEname_Ok_iff)
  done

lemma readStruct_loop_fin:
  "readStruct_loop (Suc f) (0 # rest) a L sv =
     (if a + 1 \<noteq> sint L then Err (SizeMismatch L (a + 1)) else Ok (a + 1, sv, rest))"
  by simp

lemma readMap_loop_fin:
  "readMap_loop (Suc f) (0 # rest) a L mT eT m =
     (if a + 1 \<noteq> sint L then Err (SizeMismatch L (a + 1)) else Ok (a + 1, m, rest))"
  by simp

lemma readArray_loop_fin:
  "readArray_loop (Suc f) (0 # rest) a L aT eT arr =
     (if a + 1 \<noteq> sint L then Err (SizeMismatch L (a + 1)) else Ok (a + 1, arr, rest))"
  by simp

lemma readStruct_loop_elem:
  assumes "et \<noteq> 0" "0 \<notin> set ename" "structField sv ename et = Ok (i, T, fv)"
    "readEvalue f b2 T fv et = Ok (n2, v, b3)"
  shows "readStruct_loop (Suc f) (et # ename @ 0 # b2) a L sv
           = readStruct_loop f b3 (a + 1 + (int (length ename) + 1) + n2) L (setField sv i v)"
  using assms by (simp add: readEname_append)

lemma readMap_loop_elem:
  assumes "et \<noteq> 0" "0 \<notin> set ename" "mapElemTarget et mT eT ename = Ok (tT, tmp)"
    "readEvalue f b2 tT tmp et = Ok (n2, v, b3)" "SetMapIndex m ename v = Ok m'"
  shows "readMap_loop (Suc f) (et # ename @ 0 # b2) a L mT eT m
           = readMap_loop f b3 (a + 1 + (int (length ename) + 1) + n2) L mT eT m'"
  using assms by (simp add: readEname_append)

lemma readArray_loop_elem:
  assumes "et \<noteq> 0" "0 \<notin> set ename" "arrElemTarget et aT eT ename = Ok (tT, tmp)"
    "readEvalue f b2 tT tmp et = Ok (n2, v, b3)" "Append arr v = Ok arr'"
  shows "readArray_loop (Suc f) (et # ename @ 0 # b2) a L aT eT arr
           = readArray_loop f b3 (a + 1 + (int (length ename) + 1) + n2) L aT eT arr'"
  using assms by (simp add: readEname_append)

lemma readStruct_Ok_iff:
  "readStruct (Suc f) buf sv = Ok r
     \<longleftrightarrow> (\<exists>c b1. buf = c @ b1 \<and> length c = 4
            \<and> readStruct_loop f b1 4 (fromLittleEndian c) sv = Ok r)"
  by (auto simp: andThen_Ok_iff readInt32_Ok_iff)

lemma MakeMap_Ok_iff: "MakeMap T = Ok m \<longleftrightarrow> (\<exists>kt et. T = TMap kt et \<and> m = VMap kt et [])"
  by (cases T) auto

lemma MakeSlice_Ok_iff:
  "MakeSlice T = Ok a \<longleftrightarrow> (\<exists>et. T = TSlice et \<and> a = (if et = TUint8 then VBytes [] else VSlice et []))"
  by (cases T) auto

lemma readMap_Ok_iff:
  "readMap (Suc f) buf T mv = Ok r
     \<longleftrightarrow> (\<exists>c b1 kt et. buf = c @ b1 \<and> length c = 4 \<and> T = TMap kt et \<and> kind_of kt = KString
            \<and> mv \<noteq> VNil
            \<and> readMap_loop f b1 4 (fromLittleEndian c) T et (VMap kt et []) = Ok r)"
  by (cases T) (auto simp: andThen_Ok_iff readInt32_Ok_iff)

lemma readArray_Ok_iff:
  "readArray (Suc f) buf T av = Ok r
     \<longleftrightarrow> (\<exists>c b1 et. buf = c @ b1 \<and> length c = 4 \<and> T = TSlice et \<and> av \<noteq> VNil
            \<and> readArray_loop f b1 4 (fromLittleEndian c) T et
                 (if et = TUint8 then VBytes [] else VSlice et []) = Ok r)"
  by (cases T) (auto simp: andThen_Ok_iff readInt32_Ok_iff)

subsection \<open>Framing\<close>

text \<open>
  A successful read consumes a nonempty prefix of the buffer and returns the rest; it
  gives the same answer on that prefix followed by anything else, with any larger
  amount of fuel; and the count it reports is the length of the prefix, as long as
  the prefix is shorter than \<open>2^31\<close> bytes. For a loop the count starts from the
  \<^verbatim>\<open>actualSize\<close> it was entered with.
\<close>

definition framed ::
  "(nat \<Rightarrow> bytes \<Rightarrow> (int \<times> 'a \<times> bytes) result) \<Rightarrow> nat \<Rightarrow> int \<Rightarrow> bytes \<Rightarrow> int \<Rightarrow> 'a \<Rightarrow> bytes \<Rightarrow> bool"
where
  "framed rd f a buf n v rest \<longleftrightarrow>
     (\<exists>c. buf = c @ rest \<and> c \<noteq> []
        \<and> (length c < 2 ^ 31 \<longrightarrow> n = a + int (length c))
        \<and> (\<forall>f' rest'. f \<le> f' \<longrightarrow> rd f' (c @ rest') = Ok (n, v, rest')))"

lemma framedI:
  assumes "buf = c @ rest" "c \<noteq> []" "length c < 2 ^ 31 \<Longrightarrow> n = a + int (length c)"
    "\<And>f' rest'. f \<le> f' \<Longrightarrow> rd f' (c @ rest') = Ok (n, v, rest')"
  shows "framed rd f a buf n v rest"
  unfolding framed_def using assms by blast

lemma framed_prefix:
  assumes lp: "framed rdl f (int (length c4)) b1 n v rest"
    and step: "\<And>f' r. f \<le> f' \<Longrightarrow> rd (Suc f') (c4 @ r) = rdl f' r"
  shows "framed rd (Suc f) 0 (c4 @ b1) n v rest"
proof -
  from lp obtain c where c: "b1 = c @ rest" "c \<noteq> []"
    "length c < 2 ^ 31 \<longrightarrow> n = int (length c4) + int (length c)"
    "\<And>f' rest'. f \<le> f' \<Longrightarrow> rdl f' (c @ rest') = Ok (n, v, rest')"
    unfolding framed_def by blast
  show ?thesis
  proof (rule framedI [where c = "c4 @ c"])
    show "c4 @ b1 = (c4 @ c) @ rest" using c(1) by simp
    show "c4 @ c \<noteq> []" using c(2) by simp
    show "n = 0 + int (length (c4 @ c))" if "length (c4 @ c) < 2 ^ 31"
      using that c(3) by simp
    show "rd f' ((c4 @ c) @ rest') = Ok (n, v, rest')" if "Suc f \<le> f'" for f' rest'
    proof -
      from that obtain f'' where f': "f' = Suc f''" "f \<le> f''" by (cases f') auto
      show ?thesis using step [OF f'(2), of "c @ rest'"] c(4) [OF f'(2)] by (simp add: f'(1))
    qed
  qed
qed

lemma framed_elem:
  assumes ev: "framed rdv f 0 b2 n2 v b3"
    and lp: "framed rdl f (a + int (length hdr) + n2) b3 n v' rest"
    and step: "\<And>f' r2 r3. f \<le> f' \<Longrightarrow> rdv f' r2 = Ok (n2, v, r3)
                 \<Longrightarrow> rd (Suc f') (hdr @ r2) = rdl f' r3"
  shows "framed rd (Suc f) a (hdr @ b2) n v' rest"
proof -
  from ev obtain c2 where c2: "b2 = c2 @ b3" "c2 \<noteq> []"
    "length c2 < 2 ^ 31 \<longrightarrow> n2 = int (length c2)"
    "\<And>f' rest'. f \<le> f' \<Longrightarrow> rdv f' (c2 @ rest') = Ok (n2, v, rest')"
    unfolding framed_def by auto
  from lp obtain c3 where c3: "b3 = c3 @ rest" "c3 \<noteq> []"
    "length c3 < 2 ^ 31 \<longrightarrow> n = a + int (length hdr) + n2 + int (length c3)"
    "\<And>f' rest'. f \<le> f' \<Longrightarrow> rdl f' (c3 @ rest') = Ok (n, v', rest')"
    unfolding framed_def by blast
  show ?thesis
  proof (rule framedI [where c = "hdr @ c2 @ c3"])
    show "hdr @ b2 = (hdr @ c2 @ c3) @ rest" using c2(1) c3(1) by simp
    show "hdr @ c2 @ c3 \<noteq> []" using c2(2) by simp
    show "n = a + int (length (hdr @ c2 @ c3))" if "length (hdr @ c2 @ c3) < 2 ^ 31"
      using that c2(3) c3(3) by simp
    show "rd f' ((hdr @ c2 @ c3) @ rest') = Ok (n, v', rest')" if "Suc f \<le> f'" for f' rest'
    proof -
      from that obtain f'' where f': "f' = Suc f''" "f \<le> f''" by (cases f') auto
      have "rd (Suc f'') (hdr @ c2 @ (c3 @ rest')) = rdl f'' (c3 @ rest')"
        by (rule step [OF f'(2) c2(4) [OF f'(2)]])
      with c3(4) [OF f'(2)] show ?thesis by (simp add: f'(1))
    qed
  qed
qed

lemma sint_plus_one:
  assumes "sint (y :: 32 word) < 2147483647"
  shows "sint (y + 1) = sint y + 1"
proof -
  have "sint (y + 1) = signed_take_bit 31 (sint y + sint (1 :: 32 word))"
    by (simp add: sint_word_ariths word_size)
  also have "\<dots> = signed_take_bit 31 (sint y + 1)" by simp
  also have "\<dots> = sint y + 1"
    using assms sint_ge [of y] by (intro signed_take_bit_int_eq_self) simp_all
  finally show ?thesis .
qed

lemma sint_minus_one:
  "sint (w - 1 :: 32 word) < 2147483647 \<Longrightarrow> sint w = sint (w - 1) + 1"
  using sint_plus_one [of "w - 1"] by simp

lemma readEvalue_prim:
  assumes "readEvalue (Suc f) buf T v et = Ok (n, v', rest)"
    "et \<noteq> kEtypeDocument" "et \<noteq> kEtypeArray"
  shows "\<exists>c. buf = c @ rest \<and> c \<noteq> []
        \<and> (length c < 2 ^ 31 \<longrightarrow> n = int (length c))
        \<and> (\<forall>f' rest'. readEvalue (Suc f') (c @ rest') T v et = Ok (n, v', rest'))"
proof -
  consider (double) "et = kEtypeDouble" | (string) "et = kEtypeString" | (binary) "et = kEtypeBinary"
    | (boolean) "et = kEtypeBoolean" | (datetime) "et = kEtypeUtcDatetime"
    | (int32) "et = kEtypeInt32" | (int64) "et = kEtypeInt64"
    using assms by (auto split: if_splits)
  then show ?thesis
  proof cases
    case double
    with assms(1) obtain c x where "buf = c @ rest" "length c = 8" "n = 8" "T = TFloat64"
      "v' = VFloat64 (fromLittleEndian c)"
      by (auto simp: andThen_Ok_iff readFloat64_Ok_iff split: if_splits)
    then show ?thesis using double
      by (intro exI [of _ c]) (auto simp: readFloat64_append)
  next
    case string
    with assms(1) obtain c str where c: "buf = c @ str @ 0 # rest" "length c = 4"
      "0 \<le> sint (fromLittleEndian c - 1 :: 32 word)"
      "int (length str) = sint (fromLittleEndian c - 1 :: 32 word)"
      "n = sint (fromLittleEndian c :: 32 word) + 4" "T = TString" "v' = VString str"
      by (auto simp: andThen_Ok_iff readEstring_Ok_iff split: if_splits)
    have fr: "readEstring ((c @ str @ [0]) @ rest') = Ok (n, str, rest')" for rest'
      using c by (simp add: readEstring_Ok_iff)
    have cnt: "n = int (length (c @ str @ [0]))" if "length (c @ str @ [0]) < 2 ^ 31"
    proof -
      from that c(4) have "sint (fromLittleEndian c - 1 :: 32 word) < 2147483647" by simp
      from sint_minus_one [OF this] c show ?thesis by simp
    qed
    show ?thesis using c(1) c(6,7) string fr cnt
      by (intro exI [of _ "c @ str @ [0]"]) (auto simp del: append_assoc)
  next
    case binary
    with assms(1) obtain c subtype bin where c: "buf = c @ subtype # bin @ rest" "length c = 4"
      "0 \<le> sint (fromLittleEndian c :: 32 word)"
      "int (length bin) = sint (fromLittleEndian c :: 32 word)"
      "n = sint (fromLittleEndian c :: 32 word) + 4 + 1" "T = TSlice TUint8" "v' = VBytes bin"
      by (auto simp: andThen_Ok_iff readEbinary_Ok_iff split: if_splits)
    have fr: "readEbinary ((c @ subtype # bin) @ rest') = Ok (n, bin, rest')" for rest'
      using c by (simp add: readEbinary_Ok_iff)
    show ?thesis using c binary fr
      by (intro exI [of _ "c @ subtype # bin"]) (auto simp del: append_assoc)
  next
    case boolean
    with assms(1) obtain b where "buf = b # rest" "n = 1" "b = 0 \<or> b = 1" "T = TBool"
      "v' = VBool (b = 1)"
      by (auto simp: andThen_Ok_iff readBoolean_Ok_iff split: if_splits)
    then show ?thesis using boolean
      by (intro exI [of _ "[b]"]) (auto simp: readBoolean_def)
  next
    case datetime
    with assms(1) obtain c where "buf = c @ rest" "length c = 8" "n = 8" "T = TTime"
      "v' = timeFromMillis (fromLittleEndian c)"
      by (auto simp: andThen_Ok_iff readInt64_Ok_iff split: if_splits)
    then show ?thesis using datetime
      by (intro exI [of _ c]) (auto simp: readInt64_append)
  next
    case int32
    with assms(1) obtain c where "buf = c @ rest" "length c = 4" "n = 4" "T = TInt32"
      "v' = VInt32 (fromLittleEndian c)"
      by (auto simp: andThen_Ok_iff readInt32_Ok_iff split: if_splits)
    then show ?thesis using int32
      by (intro exI [of _ c]) (auto simp: readInt32_append)
  next
    case int64
    with assms(1) obtain c where "buf = c @ rest" "length c = 8" "n = 8"
      "(T = TInt64 \<and> v' = VInt64 (fromLittleEndian c)) \<or> (T = TInt \<and> v' = VInt (fromLittleEndian c))"
      by (auto simp: andThen_Ok_iff readInt64_Ok_iff readInt_def split: if_splits)
    then show ?thesis using int64
      by (intro exI [of _ c]) (auto simp: readInt64_append readInt_def)
  qed
qed

definition frame_all :: "nat \<Rightarrow> bool" where
  "frame_all f \<longleftrightarrow>
     (\<forall>buf T v et n v' rest. readEvalue f buf T v et = Ok (n, v', rest)
         \<longrightarrow> framed (\<lambda>fu b. readEvalue fu b T v et) f 0 buf n v' rest)
   \<and> (\<forall>buf sv n v' rest. readStruct f buf sv = Ok (n, v', rest)
         \<longrightarrow> framed (\<lambda>fu b. readStruct fu b sv) f 0 buf n v' rest)
   \<and> (\<forall>buf a L sv n v' rest. readStruct_loop f buf a L sv = Ok (n, v', rest)
         \<longrightarrow> framed (\<lambda>fu b. readStruct_loop fu b a L sv) f a buf n v' rest)
   \<and> (\<forall>buf T mv n v' rest. readMap f buf T mv = Ok (n, v', rest)
         \<longrightarrow> framed (\<lambda>fu b. readMap fu b T mv) f 0 buf n v' rest)
   \<and> (\<forall>buf a L mT eT m n v' rest. readMap_loop f buf a L mT eT m = Ok (n, v', rest)
         \<longrightarrow> framed (\<lambda>fu b. readMap_loop fu b a L mT eT m) f a buf n v' rest)
   \<and> (\<forall>buf T av n v' rest. readArray f buf T av = Ok (n, v', rest)
         \<longrightarrow> framed (\<lambda>fu b. readArray fu b T av) f 0 buf n v' rest)
   \<and> (\<forall>buf a L aT eT arr n v' rest. readArray_loop f buf a L aT eT arr = Ok (n, v', rest)
         \<longrightarrow> framed (\<lambda>fu b. readArray_loop fu b a L aT eT arr) f a buf n v' rest)"

lemma frame_allD:
  assumes "frame_all f"
  shows "readEvalue f buf T v et = Ok (n, v', rest)
           \<Longrightarrow> framed (\<lambda>fu b. readEvalue fu b T v et) f 0 buf n v' rest"
    and "readStruct f buf sv = Ok (n, v', rest)
           \<Longrightarrow> framed (\<lambda>fu b. readStruct fu b sv) f 0 buf n v' rest"
    and "readStruct_loop f buf a L sv = Ok (n, v', rest)
           \<Longrightarrow> framed (\<lambda>fu b. readStruct_loop fu b a L sv) f a buf n v' rest"
    and "readMap f buf T mv = Ok (n, v', rest)
           \<Longrightarrow> framed (\<lambda>fu b. readMap fu b T mv) f 0 buf n v' rest"
    and "readMap_loop f buf a L mT eT m = Ok (n, v', rest)
           \<Longrightarrow> framed (\<lambda>fu b. readMap_loop fu b a L mT eT m) f a buf n v' rest"
    and "readArray f buf T av = Ok (n, v', rest)
           \<Longrightarrow> framed (\<lambda>fu b. readArray fu b T av) f 0 buf n v' rest"
    and "readArray_loop f buf a L aT eT arr = Ok (n, v', rest)
           \<Longrightarrow> framed (\<lambda>fu b. readArray_loop fu b a L aT eT arr) f a buf n v' rest"
  using assms unfolding frame_all_def by simp_all

lemma framed_fin:
  assumes "\<And>f' rest'. rd (Suc f') (0 # rest') = Ok (a + 1, v, rest')"
  shows "framed rd (Suc f) a (0 # rest) (a + 1) v rest"
proof (rule framedI [where c = "[0]"])
  show "rd f' ([0] @ rest') = Ok (a + 1, v, rest')" if "Suc f \<le> f'" for f' rest'
    using that assms [of "f' - 1" rest'] by (cases f') auto
qed simp_all

lemma frame_all_Suc:
  assumes IH: "frame_all f"
  shows "frame_all (Suc f)"
  unfolding frame_all_def
proof (intro conjI allI impI)
  fix buf T v et n v' rest
  assume ok: "readEvalue (Suc f) buf T v et = Ok (n, v', rest)"
  show "framed (\<lambda>fu b. readEvalue fu b T v et) (Suc f) 0 buf n v' rest"
  proof (cases "et = kEtypeDocument \<or> et = kEtypeArray")
    case False
    with readEvalue_prim [OF ok] obtain c where c: "buf = c @ rest" "c \<noteq> []"
      "length c < 2 ^ 31 \<longrightarrow> n = int (length c)"
      "\<And>f' rest'. readEvalue (Suc f') (c @ rest') T v et = Ok (n, v', rest')" by blast
    show ?thesis
    proof (rule framedI [where c = c])
      show "readEvalue f' (c @ rest') T v et = Ok (n, v', rest')" if "Suc f \<le> f'" for f' rest'
        using that c(4) [of "f' - 1" rest'] by (cases f') auto
    qed (use c in simp_all)
  next
    case True
    then consider (st) "et = kEtypeDocument" "kind_of T = KStruct"
        "readStruct f buf v = Ok (n, v', rest)"
      | (mp) "et = kEtypeDocument" "kind_of T \<noteq> KStruct" "kind_of T = KMap"
        "readMap f buf T v = Ok (n, v', rest)"
      | (ar) "et = kEtypeArray" "readArray f buf T v = Ok (n, v', rest)"
      using ok by (auto split: if_splits)
    then show ?thesis
    proof cases
      case st
      from frame_allD(2) [OF IH st(3)] have "framed (\<lambda>fu b. readStruct fu b v) f 0 buf n v' rest" .
      then obtain c where c: "buf = c @ rest" "c \<noteq> []"
        "length c < 2 ^ 31 \<longrightarrow> n = 0 + int (length c)"
        "\<And>f' rest'. f \<le> f' \<Longrightarrow> readStruct f' (c @ rest') v = Ok (n, v', rest')"
        unfolding framed_def by blast
      show ?thesis
      proof (rule framedI [where c = c])
        show "readEvalue f' (c @ rest') T v et = Ok (n, v', rest')" if "Suc f \<le> f'" for f' rest'
          using that c(4) [of "f' - 1" rest'] st(1,2) by (cases f') auto
      qed (use c in simp_all)
    next
      case mp
      from frame_allD(4) [OF IH mp(4)] have "framed (\<lambda>fu b. readMap fu b T v) f 0 buf n v' rest" .
      then obtain c where c: "buf = c @ rest" "c \<noteq> []"
        "length c < 2 ^ 31 \<longrightarrow> n = 0 + int (length c)"
        "\<And>f' rest'. f \<le> f' \<Longrightarrow> readMap f' (c @ rest') T v = Ok (n, v', rest')"
        unfolding framed_def by blast
      show ?thesis
      proof (rule framedI [where c = c])
        show "readEvalue f' (c @ rest') T v et = Ok (n, v', rest')" if "Suc f \<le> f'" for f' rest'
          using that c(4) [of "f' - 1" rest'] mp(1,2,3) by (cases f') auto
      qed (use c in simp_all)
    next
      case ar
      from frame_allD(6) [OF IH ar(2)] have "framed (\<lambda>fu b. readArray fu b T v) f 0 buf n v' rest" .
      then obtain c where c: "buf = c @ rest" "c \<noteq> []"
        "length c < 2 ^ 31 \<longrightarrow> n = 0 + int (length c)"
        "\<And>f' rest'. f \<le> f' \<Longrightarrow> readArray f' (c @ rest') T v = Ok (n, v', rest')"
        unfolding framed_def by blast
      show ?thesis
      proof (rule framedI [where c = c])
        show "readEvalue f' (c @ rest') T v et = Ok (n, v', rest')" if "Suc f \<le> f'" for f' rest'
          using that c(4) [of "f' - 1" rest'] ar(1) by (cases f') auto
      qed (use c in simp_all)
    qed
  qed
next
  fix buf sv n v' rest
  assume "readStruct (Suc f) buf sv = Ok (n, v', rest)"
  then obtain c4 b1 where c4: "buf = c4 @ b1" "length c4 = 4"
    "readStruct_loop f b1 4 (fromLittleEndian c4) sv = Ok (n, v', rest)"
    unfolding readStruct_Ok_iff by blast
  from frame_allD(3) [OF IH c4(3)] have "framed (\<lambda>fu b. readStruct_loop fu b 4 (fromLittleEndian c4) sv) f
      (int (length c4)) b1 n v' rest"
    unfolding c4(2) by simp
  then show "framed (\<lambda>fu b. readStruct fu b sv) (Suc f) 0 buf n v' rest"
    unfolding c4(1)
    by (rule framed_prefix) (simp add: readInt32_append [OF c4(2)])
next
  fix buf a L sv n v' rest
  assume "readStruct_loop (Suc f) buf a L sv = Ok (n, v', rest)"
  then show "framed (\<lambda>fu b. readStruct_loop fu b a L sv) (Suc f) a buf n v' rest"
  proof (cases rule: readStruct_loop_OkE)
    case fin
    have "framed (\<lambda>fu b. readStruct_loop fu b a L sv) (Suc f) a (0 # rest) (a + 1) sv rest"
      by (rule framed_fin) (simp add: fin(2))
    then show ?thesis unfolding fin(1,3,4) .
  next
    case (elem et ename b2 i T fv n2 v b3)
    from frame_allD(1) [OF IH elem(5)] have ev: "framed (\<lambda>fu b. readEvalue fu b T fv et) f 0 b2 n2 v b3" .
    from frame_allD(3) [OF IH elem(6)] have lp: "framed (\<lambda>fu b. readStruct_loop fu b
        (a + int (length (et # ename @ [0])) + n2) L (setField sv i v)) f
        (a + int (length (et # ename @ [0])) + n2) b3 n v' rest"
      by (simp add: algebra_simps)
    have "framed (\<lambda>fu b. readStruct_loop fu b a L sv) (Suc f) a ((et # ename @ [0]) @ b2) n v' rest"
      using ev lp
    proof (rule framed_elem)
      fix f' r2 r3
      assume "readEvalue f' r2 T fv et = Ok (n2, v, r3)"
      from readStruct_loop_elem [OF elem(1,3,4) this, of a L]
      show "readStruct_loop (Suc f') ((et # ename @ [0]) @ r2) a L sv
          = readStruct_loop f' r3 (a + int (length (et # ename @ [0])) + n2) L (setField sv i v)"
        by (simp add: algebra_simps)
    qed
    then show ?thesis using elem(2) by simp
  qed
next
  fix buf T mv n v' rest
  assume "readMap (Suc f) buf T mv = Ok (n, v', rest)"
  then obtain c4 b1 kt et where c4: "buf = c4 @ b1" "length c4 = 4" "T = TMap kt et"
    "kind_of kt = KString" "mv \<noteq> VNil"
    "readMap_loop f b1 4 (fromLittleEndian c4) T et (VMap kt et []) = Ok (n, v', rest)"
    unfolding readMap_Ok_iff by blast
  from frame_allD(5) [OF IH c4(6)] have "framed (\<lambda>fu b. readMap_loop fu b 4 (fromLittleEndian c4) T et (VMap kt et [])) f
      (int (length c4)) b1 n v' rest"
    unfolding c4(2) by simp
  then show "framed (\<lambda>fu b. readMap fu b T mv) (Suc f) 0 buf n v' rest"
    unfolding c4(1)
    by (rule framed_prefix) (simp add: readInt32_append [OF c4(2)] c4(3,4,5))
next
  fix buf a L mT eT m n v' rest
  assume "readMap_loop (Suc f) buf a L mT eT m = Ok (n, v', rest)"
  then show "framed (\<lambda>fu b. readMap_loop fu b a L mT eT m) (Suc f) a buf n v' rest"
  proof (cases rule: readMap_loop_OkE)
    case fin
    have "framed (\<lambda>fu b. readMap_loop fu b a L mT eT m) (Suc f) a (0 # rest) (a + 1) m rest"
      by (rule framed_fin) (simp add: fin(2))
    then show ?thesis unfolding fin(1,3,4) .
  next
    case (elem et ename b2 tT tmp n2 v b3 m')
    from frame_allD(1) [OF IH elem(5)] have ev: "framed (\<lambda>fu b. readEvalue fu b tT tmp et) f 0 b2 n2 v b3" .
    from frame_allD(5) [OF IH elem(7)] have lp: "framed (\<lambda>fu b. readMap_loop fu b
        (a + int (length (et # ename @ [0])) + n2) L mT eT m') f
        (a + int (length (et # ename @ [0])) + n2) b3 n v' rest"
      by (simp add: algebra_simps)
    have "framed (\<lambda>fu b. readMap_loop fu b a L mT eT m) (Suc f) a ((et # ename @ [0]) @ b2) n v' rest"
      using ev lp
    proof (rule framed_elem)
      fix f' r2 r3
      assume "readEvalue f' r2 tT tmp et = Ok (n2, v, r3)"
      from readMap_loop_elem [OF elem(1,3,4) this elem(6), of a L]
      show "readMap_loop (Suc f') ((et # ename @ [0]) @ r2) a L mT eT m
          = readMap_loop f' r3 (a + int (length (et # ename @ [0])) + n2) L mT eT m'"
        by (simp add: algebra_simps)
    qed
    then show ?thesis using elem(2) by simp
  qed
next
  fix buf T av n v' rest
  assume "readArray (Suc f) buf T av = Ok (n, v', rest)"
  then obtain c4 b1 et where c4: "buf = c4 @ b1" "length c4 = 4" "T = TSlice et" "av \<noteq> VNil"
    "readArray_loop f b1 4 (fromLittleEndian c4) T et
       (if et = TUint8 then VBytes [] else VSlice et []) = Ok (n, v', rest)"
    unfolding readArray_Ok_iff by blast
  from frame_allD(7) [OF IH c4(5)] have "framed (\<lambda>fu b. readArray_loop fu b 4 (fromLittleEndian c4) T et
       (if et = TUint8 then VBytes [] else VSlice et [])) f
      (int (length c4)) b1 n v' rest"
    unfolding c4(2) by simp
  then show "framed (\<lambda>fu b. readArray fu b T av) (Suc f) 0 buf n v' rest"
    unfolding c4(1)
    by (rule framed_prefix) (simp add: readInt32_append [OF c4(2)] c4(3,4))
next
  fix buf a L aT eT arr n v' rest
  assume "readArray_loop (Suc f) buf a L aT eT arr = Ok (n, v', rest)"
  then show "framed (\<lambda>fu b. readArray_loop fu b a L aT eT arr) (Suc f) a buf n v' rest"
  proof (cases rule: readArray_loop_OkE)
    case fin
    have "framed (\<lambda>fu b. readArray_loop fu b a L aT eT arr) (Suc f) a (0 # rest) (a + 1) arr rest"
      by (rule framed_fin) (simp add: fin(2))
    then show ?thesis unfolding fin(1,3,4) .
  next
    case (elem et ename b2 tT tmp n2 v b3 arr')
    from frame_allD(1) [OF IH elem(5)] have ev: "framed (\<lambda>fu b. readEvalue fu b tT tmp et) f 0 b2 n2 v b3" .
    from frame_allD(7) [OF IH elem(7)] have lp: "framed (\<lambda>fu b. readArray_loop fu b
        (a + int (length (et # ename @ [0])) + n2) L aT eT arr') f
        (a + int (length (et # ename @ [0])) + n2) b3 n v' rest"
      by (simp add: algebra_simps)
    have "framed (\<lambda>fu b. readArray_loop fu b a L aT eT arr) (Suc f) a ((et # ename @ [0]) @ b2) n v' rest"
      using ev lp
    proof (rule framed_elem)
      fix f' r2 r3
      assume "readEvalue f' r2 tT tmp et = Ok (n2, v, r3)"
      from readArray_loop_elem [OF elem(1,3,4) this elem(6), of a L]
      show "readArray_loop (Suc f') ((et # ename @ [0]) @ r2) a L aT eT arr
          = readArray_loop f' r3 (a + int (length (et # ename @ [0])) + n2) L aT eT arr'"
        by (simp add: algebra_simps)
    qed
    then show ?thesis using elem(2) by simp
  qed
qed

lemma frame_all: "frame_all f"
proof (induction f)
  case 0 show ?case by (simp add: frame_all_def)
next
  case (Suc f) then show ?case by (rule frame_all_Suc)
qed

subsection \<open>Fuel\<close>

text \<open>More fuel never changes an answer other than \<open>OutOfFuel\<close>.\<close>

definition below :: "'a result \<Rightarrow> 'a result \<Rightarrow> bool" where
  "below r r' \<longleftrightarrow> r = OutOfFuel \<or> r = r'"

lemma below_refl [simp]: "below r r"
  by (simp add: below_def)

lemma andThen_below:
  assumes "below m m'" "\<And>x. below (g x) (g' x)"
  shows "below (andThen m g) (andThen m' g')"
proof (cases m)
  case (Ok x)
  with assms(1) have "m' = Ok x" by (simp add: below_def)
  with Ok assms(2) [of x] show ?thesis by simp
qed (use assms(1) in \<open>auto simp: below_def\<close>)

lemma wrapErr_below: "below r r' \<Longrightarrow> below (wrapErr w r) (wrapErr w r')"
  by (cases r) (auto simp: below_def)

lemma below_case_prod:
  "(\<And>a b. below (g a b) (g' a b)) \<Longrightarrow> below (case_prod g x) (case_prod g' x)"
  by (cases x) simp

lemma below_if:
  "(c \<Longrightarrow> below x x') \<Longrightarrow> (\<not> c \<Longrightarrow> below y y')
     \<Longrightarrow> below (if c then x else y) (if c then x' else y')"
  by simp

lemma below_trans: "below a b \<Longrightarrow> below b c \<Longrightarrow> below a c"
  by (auto simp: below_def)

definition fuel_mono_all :: "nat \<Rightarrow> bool" where
  "fuel_mono_all f \<longleftrightarrow>
     (\<forall>buf T v et. below (readEvalue f buf T v et) (readEvalue (Suc f) buf T v et))
   \<and> (\<forall>buf sv. below (readStruct f buf sv) (readStruct (Suc f) buf sv))
   \<and> (\<forall>buf a L sv. below (readStruct_loop f buf a L sv) (readStruct_loop (Suc f) buf a L sv))
   \<and> (\<forall>buf T mv. below (readMap f buf T mv) (readMap (Suc f) buf T mv))
   \<and> (\<forall>buf a L mT eT m. below (readMap_loop f buf a L mT eT m)
                            (readMap_loop (Suc f) buf a L mT eT m))
   \<and> (\<forall>buf T av. below (readArray f buf T av) (readArray (Suc f) buf T av))
   \<and> (\<forall>buf a L aT eT arr. below (readArray_loop f buf a L aT eT arr)
                              (readArray_loop (Suc f) buf a L aT eT arr))"

lemma below_step:
  assumes IH:
    "\<And>buf T v et. below (readEvalue f buf T v et) (readEvalue f' buf T v et)"
    "\<And>buf sv. below (readStruct f buf sv) (readStruct f' buf sv)"
    "\<And>buf a L sv. below (readStruct_loop f buf a L sv) (readStruct_loop f' buf a L sv)"
    "\<And>buf T mv. below (readMap f buf T mv) (readMap f' buf T mv)"
    "\<And>buf a L mT eT m. below (readMap_loop f buf a L mT eT m)
                            (readMap_loop f' buf a L mT eT m)"
    "\<And>buf T av. below (readArray f buf T av) (readArray f' buf T av)"
    "\<And>buf a L aT eT arr. below (readArray_loop f buf a L aT eT arr)
                              (readArray_loop f' buf a L aT eT arr)"
  shows "below (readEvalue (Suc f) buf T v et) (readEvalue (Suc f') buf T v et)"
    and "below (readStruct (Suc f) buf sv) (readStruct (Suc f') buf sv)"
    and "below (readStruct_loop (Suc f) buf a L sv) (readStruct_loop (Suc f') buf a L sv)"
    and "below (readMap (Suc f) buf T mv) (readMap (Suc f') buf T mv)"
    and "below (readMap_loop (Suc f) buf a L mT eT m) (readMap_loop (Suc f') buf a L mT eT m)"
    and "below (readArray (Suc f) buf T av) (readArray (Suc f') buf T av)"
    and "below (readArray_loop (Suc f) buf a L aT eT arr)
               (readArray_loop (Suc f') buf a L aT eT arr)"
proof -
  show "below (readEvalue (Suc f) buf T v et) (readEvalue (Suc f') buf T v et)"
    by (simp add: IH)
  show "below (readStruct (Suc f) buf sv) (readStruct (Suc f') buf sv)"
    unfolding readStruct.simps(2)
    by (intro andThen_below wrapErr_below below_case_prod below_if below_refl IH)
  show "below (readStruct_loop (Suc f) buf a L sv) (readStruct_loop (Suc f') buf a L sv)"
    unfolding readStruct_loop.simps(2)
    by (intro andThen_below wrapErr_below below_case_prod below_if below_refl IH)
  show "below (readMap (Suc f) buf T mv) (readMap (Suc f') buf T mv)"
    unfolding readMap.simps(2)
    by (intro andThen_below wrapErr_below below_case_prod below_if below_refl IH)
  show "below (readMap_loop (Suc f) buf a L mT eT m) (readMap_loop (Suc f') buf a L mT eT m)"
    unfolding readMap_loop.simps(2)
    by (intro andThen_below wrapErr_below below_case_prod below_if below_refl IH)
  show "below (readArray (Suc f) buf T av) (readArray (Suc f') buf T av)"
    unfolding readArray.simps(2)
    by (intro andThen_below wrapErr_below below_case_prod below_if below_refl IH)
  show "below (readArray_loop (Suc f) buf a L aT eT arr)
               (readArray_loop (Suc f') buf a L aT eT arr)"
    unfolding readArray_loop.simps(2)
    by (intro andThen_below wrapErr_below below_case_prod below_if below_refl IH)
qed

lemma fuel_mono_all: "fuel_mono_all f"
proof (induction f)
  case 0 show ?case by (simp add: fuel_mono_all_def below_def)
next
  case (Suc f)
  then have IH:
    "\<And>buf T v et. below (readEvalue f buf T v et) (readEvalue (Suc f) buf T v et)"
    "\<And>buf sv. below (readStruct f buf sv) (readStruct (Suc f) buf sv)"
    "\<And>buf a L sv. below (readStruct_loop f buf a L sv) (readStruct_loop (Suc f) buf a L sv)"
    "\<And>buf T mv. below (readMap f buf T mv) (readMap (Suc f) buf T mv)"
    "\<And>buf a L mT eT m. below (readMap_loop f buf a L mT eT m)
                            (readMap_loop (Suc f) buf a L mT eT m)"
    "\<And>buf T av. below (readArray f buf T av) (readArray (Suc f) buf T av)"
    "\<And>buf a L aT eT arr. below (readArray_loop f buf a L aT eT arr)
                              (readArray_loop (Suc f) buf a L aT eT arr)"
    unfolding fuel_mono_all_def by simp_all
  note st = below_step [of f "Suc f", OF IH]
  show ?case unfolding fuel_mono_all_def
    by (intro conjI allI) (rule st)+
qed

lemma fuel_mono_Suc:
  "below (readEvalue f buf T v et) (readEvalue (Suc f) buf T v et)"
  "below (readStruct f buf sv) (readStruct (Suc f) buf sv)"
  "below (readMap f buf T mv) (readMap (Suc f) buf T mv)"
  using fuel_mono_all [of f] unfolding fuel_mono_all_def by simp_all

lemma fuel_mono:
  "f \<le> f' \<Longrightarrow> below (readStruct f buf sv) (readStruct f' buf sv)"
  "f \<le> f' \<Longrightarrow> below (readMap f buf T mv) (readMap f' buf T mv)"
  "f \<le> f' \<Longrightarrow> below (readEvalue f buf T v et) (readEvalue f' buf T v et)"
proof -
  show "f \<le> f' \<Longrightarrow> below (readStruct f buf sv) (readStruct f' buf sv)"
  proof (induction f' rule: nat_induct_at_least)
    case base show ?case by simp
  next
    case (Suc n) then show ?case using fuel_mono_Suc(2) [of n buf sv] by (blast intro: below_trans)
  qed
  show "f \<le> f' \<Longrightarrow> below (readMap f buf T mv) (readMap f' buf T mv)"
  proof (induction f' rule: nat_induct_at_least)
    case base show ?case by simp
  next
    case (Suc n) then show ?case using fuel_mono_Suc(3) [of n buf T mv] by (blast intro: below_trans)
  qed
  show "f \<le> f' \<Longrightarrow> below (readEvalue f buf T v et) (readEvalue f' buf T v et)"
  proof (induction f' rule: nat_induct_at_least)
    case base show ?case by simp
  next
    case (Suc n) then show ?case using fuel_mono_Suc(1) [of n buf T v et] by (blast intro: below_trans)
  qed
qed

lemma andThen_OutOfFuel_iff:
  "andThen m g = OutOfFuel \<longleftrightarrow> m = OutOfFuel \<or> (\<exists>x. m = Ok x \<and> g x = OutOfFuel)"
  by (cases m) auto

lemma wrapErr_OutOfFuel_iff [simp]: "wrapErr w r = OutOfFuel \<longleftrightarrow> r = OutOfFuel"
  by (cases r) auto

lemma prim_not_OutOfFuel [simp]:
  "readFixed k buf \<noteq> OutOfFuel"
  "readInt32 buf \<noteq> OutOfFuel"
  "readInt64 buf \<noteq> OutOfFuel"
  "readInt buf \<noteq> OutOfFuel"
  "readFloat64 buf \<noteq> OutOfFuel"
  "readEtype buf \<noteq> OutOfFuel"
  "bufferRead k buf \<noteq> OutOfFuel"
  "readBoolean buf \<noteq> OutOfFuel"
  "MakeMap T \<noteq> OutOfFuel"
  "MakeSlice T \<noteq> OutOfFuel"
  "Key T \<noteq> OutOfFuel"
  "Elem T \<noteq> OutOfFuel"
  "SetMapIndex m key v \<noteq> OutOfFuel"
  "Append arr v \<noteq> OutOfFuel"
  "FieldByName sv ename \<noteq> OutOfFuel"
proof -
  show a: "readFixed k buf \<noteq> OutOfFuel" for k and buf :: bytes
    by (simp add: readFixed_def)
  show "readInt32 buf \<noteq> OutOfFuel" "readInt64 buf \<noteq> OutOfFuel" "readInt buf \<noteq> OutOfFuel"
    "readFloat64 buf \<noteq> OutOfFuel"
    by (simp_all add: readInt32_def readInt64_def readInt_def readFloat64_def readFixed_def)
  show "readEtype buf \<noteq> OutOfFuel" by (cases buf) auto
  show "bufferRead k buf \<noteq> OutOfFuel" by (simp add: bufferRead_def)
  show "readBoolean buf \<noteq> OutOfFuel" by (simp add: readBoolean_def split: list.splits)
  show "MakeMap T \<noteq> OutOfFuel" by (cases T) auto
  show "MakeSlice T \<noteq> OutOfFuel" by (cases T) auto
  show "Key T \<noteq> OutOfFuel" by (cases T) auto
  show "Elem T \<noteq> OutOfFuel" by (cases T) auto
  show "SetMapIndex m key v \<noteq> OutOfFuel" by (cases m) auto
  show "Append arr v \<noteq> OutOfFuel" by (cases arr) auto
  show "FieldByName sv ename \<noteq> OutOfFuel" by (cases sv) (auto split: option.splits)
qed

lemma readEname_loop_not_OutOfFuel: "readEname_loop buf acc \<noteq> OutOfFuel"
  by (induction buf arbitrary: acc) auto

lemma more_not_OutOfFuel [simp]:
  "readEname buf \<noteq> OutOfFuel"
  "readEstring buf \<noteq> OutOfFuel"
  "readEbinary buf \<noteq> OutOfFuel"
  "structField sv ename et \<noteq> OutOfFuel"
  "mapTmp et mT eT ename \<noteq> OutOfFuel"
  "arrTmp et aT eT ename \<noteq> OutOfFuel"
  "mapElemTarget et mT eT ename \<noteq> OutOfFuel"
  "arrElemTarget et aT eT ename \<noteq> OutOfFuel"
proof -
  show "readEname buf \<noteq> OutOfFuel" by (simp add: readEname_def readEname_loop_not_OutOfFuel)
  show "readEstring buf \<noteq> OutOfFuel"
    by (auto simp: readEstring_def andThen_OutOfFuel_iff split: list.splits)
  show "readEbinary buf \<noteq> OutOfFuel"
    by (auto simp: readEbinary_def andThen_OutOfFuel_iff split: list.splits)
  show "structField sv ename et \<noteq> OutOfFuel"
    by (auto simp: structField_def andThen_OutOfFuel_iff split: option.splits)
  show a: "mapTmp et mT eT ename \<noteq> OutOfFuel" for et mT eT ename
    by (auto simp: mapTmp_def andThen_OutOfFuel_iff)
  show b: "arrTmp et aT eT ename \<noteq> OutOfFuel" for et aT eT ename
    by (auto simp: arrTmp_def andThen_OutOfFuel_iff)
  show "mapElemTarget et mT eT ename \<noteq> OutOfFuel"
    by (simp add: mapElemTarget_def a split: option.splits)
  show "arrElemTarget et aT eT ename \<noteq> OutOfFuel"
    by (simp add: arrElemTarget_def b split: option.splits)
qed

lemma readStruct_loop_OutOfFuelE:
  assumes "readStruct_loop (Suc f) buf a L sv = OutOfFuel"
  obtains (ev) et ename b2 T fv where "buf = et # ename @ 0 # b2"
        "readEvalue f b2 T fv et = OutOfFuel"
    | (lp) et ename b2 T fv n2 v b3 a' sv' where "buf = et # ename @ 0 # b2"
        "readEvalue f b2 T fv et = Ok (n2, v, b3)"
        "readStruct_loop f b3 a' L sv' = OutOfFuel"
  using assms
  apply (cases buf; simp)
  apply (simp split: if_splits)
  apply (clarsimp simp: andThen_OutOfFuel_iff readEname_Ok_iff)
  apply (elim disjE exE conjE)
   apply blast
  apply blast
  done

lemma readMap_loop_OutOfFuelE:
  assumes "readMap_loop (Suc f) buf a L mT eT m = OutOfFuel"
  obtains (ev) et ename b2 T fv where "buf = et # ename @ 0 # b2"
        "readEvalue f b2 T fv et = OutOfFuel"
    | (lp) et ename b2 T fv n2 v b3 a' m' where "buf = et # ename @ 0 # b2"
        "readEvalue f b2 T fv et = Ok (n2, v, b3)"
        "readMap_loop f b3 a' L mT eT m' = OutOfFuel"
  using assms
  apply (cases buf; simp)
  apply (simp split: if_splits)
  apply (clarsimp simp: andThen_OutOfFuel_iff readEname_Ok_iff)
  apply (elim disjE exE conjE)
   apply blast
  apply blast
  done

lemma readArray_loop_OutOfFuelE:
  assumes "readArray_loop (Suc f) buf a L aT eT arr = OutOfFuel"
  obtains (ev) et ename b2 T fv where "buf = et # ename @ 0 # b2"
        "readEvalue f b2 T fv et = OutOfFuel"
    | (lp) et ename b2 T fv n2 v b3 a' arr' where "buf = et # ename @ 0 # b2"
        "readEvalue f b2 T fv et = Ok (n2, v, b3)"
        "readArray_loop f b3 a' L aT eT arr' = OutOfFuel"
  using assms
  apply (cases buf; simp)
  apply (simp split: if_splits)
  apply (clarsimp simp: andThen_OutOfFuel_iff readEname_Ok_iff)
  apply (elim disjE exE conjE)
   apply blast
  apply blast
  done

lemma readEvalue_shrinks:
  assumes "readEvalue f buf T v et = Ok (n, v', rest)"
  shows "length rest < length buf"
proof -
  from frame_allD(1) [OF frame_all assms] obtain c where "buf = c @ rest" "c \<noteq> []"
    unfolding framed_def by blast
  then show ?thesis by simp
qed

definition fuel_enough_all :: "nat \<Rightarrow> bool" where
  "fuel_enough_all f \<longleftrightarrow>
     (\<forall>buf T v et. length buf + 2 \<le> f \<longrightarrow> readEvalue f buf T v et \<noteq> OutOfFuel)
   \<and> (\<forall>buf sv. length buf + 1 \<le> f \<longrightarrow> readStruct f buf sv \<noteq> OutOfFuel)
   \<and> (\<forall>buf a L sv. length buf + 1 \<le> f \<longrightarrow> readStruct_loop f buf a L sv \<noteq> OutOfFuel)
   \<and> (\<forall>buf T mv. length buf + 1 \<le> f \<longrightarrow> readMap f buf T mv \<noteq> OutOfFuel)
   \<and> (\<forall>buf a L mT eT m. length buf + 1 \<le> f \<longrightarrow> readMap_loop f buf a L mT eT m \<noteq> OutOfFuel)
   \<and> (\<forall>buf T av. length buf + 1 \<le> f \<longrightarrow> readArray f buf T av \<noteq> OutOfFuel)
   \<and> (\<forall>buf a L aT eT arr. length buf + 1 \<le> f
          \<longrightarrow> readArray_loop f buf a L aT eT arr \<noteq> OutOfFuel)"

lemma fuel_enough_step:
  assumes IH:
    "\<And>buf T v et. length buf + 2 \<le> f \<Longrightarrow> readEvalue f buf T v et \<noteq> OutOfFuel"
    "\<And>buf sv. length buf + 1 \<le> f \<Longrightarrow> readStruct f buf sv \<noteq> OutOfFuel"
    "\<And>buf a L sv. length buf + 1 \<le> f \<Longrightarrow> readStruct_loop f buf a L sv \<noteq> OutOfFuel"
    "\<And>buf T mv. length buf + 1 \<le> f \<Longrightarrow> readMap f buf T mv \<noteq> OutOfFuel"
    "\<And>buf a L mT eT m. length buf + 1 \<le> f \<Longrightarrow> readMap_loop f buf a L mT eT m \<noteq> OutOfFuel"
    "\<And>buf T av. length buf + 1 \<le> f \<Longrightarrow> readArray f buf T av \<noteq> OutOfFuel"
    "\<And>buf a L aT eT arr. length buf + 1 \<le> f
          \<Longrightarrow> readArray_loop f buf a L aT eT arr \<noteq> OutOfFuel"
  shows "length buf + 2 \<le> Suc f \<Longrightarrow> readEvalue (Suc f) buf T v et \<noteq> OutOfFuel"
    and "length buf + 1 \<le> Suc f \<Longrightarrow> readStruct (Suc f) buf sv \<noteq> OutOfFuel"
    and "length buf + 1 \<le> Suc f \<Longrightarrow> readStruct_loop (Suc f) buf a L sv \<noteq> OutOfFuel"
    and "length buf + 1 \<le> Suc f \<Longrightarrow> readMap (Suc f) buf T mv \<noteq> OutOfFuel"
    and "length buf + 1 \<le> Suc f \<Longrightarrow> readMap_loop (Suc f) buf a L mT eT m \<noteq> OutOfFuel"
    and "length buf + 1 \<le> Suc f \<Longrightarrow> readArray (Suc f) buf T av \<noteq> OutOfFuel"
    and "length buf + 1 \<le> Suc f \<Longrightarrow> readArray_loop (Suc f) buf a L aT eT arr \<noteq> OutOfFuel"
proof -
  show "length buf + 2 \<le> Suc f \<Longrightarrow> readEvalue (Suc f) buf T v et \<noteq> OutOfFuel"
    by (auto simp: andThen_OutOfFuel_iff IH)
  show "length buf + 1 \<le> Suc f \<Longrightarrow> readStruct (Suc f) buf sv \<noteq> OutOfFuel"
    by (auto simp: andThen_OutOfFuel_iff readInt32_Ok_iff IH)
  show "length buf + 1 \<le> Suc f \<Longrightarrow> readMap (Suc f) buf T mv \<noteq> OutOfFuel"
    by (auto simp: andThen_OutOfFuel_iff readInt32_Ok_iff IH)
  show "length buf + 1 \<le> Suc f \<Longrightarrow> readArray (Suc f) buf T av \<noteq> OutOfFuel"
    by (auto simp: andThen_OutOfFuel_iff readInt32_Ok_iff IH)
  show "readStruct_loop (Suc f) buf a L sv \<noteq> OutOfFuel" if le: "length buf + 1 \<le> Suc f"
  proof
    assume "readStruct_loop (Suc f) buf a L sv = OutOfFuel"
    then show False
    proof (cases rule: readStruct_loop_OutOfFuelE)
      case (ev et ename b2 T fv)
      with le IH(1) [of b2 T fv et] show False by simp
    next
      case (lp et ename b2 T fv n2 v b3 a' sv')
      with le readEvalue_shrinks [OF lp(2)] IH(3) [of b3 a' L sv'] show False by simp
    qed
  qed
  show "readMap_loop (Suc f) buf a L mT eT m \<noteq> OutOfFuel" if le: "length buf + 1 \<le> Suc f"
  proof
    assume "readMap_loop (Suc f) buf a L mT eT m = OutOfFuel"
    then show False
    proof (cases rule: readMap_loop_OutOfFuelE)
      case (ev et ename b2 T fv)
      with le IH(1) [of b2 T fv et] show False by simp
    next
      case (lp et ename b2 T fv n2 v b3 a' m')
      with le readEvalue_shrinks [OF lp(2)] IH(5) [of b3 a' L mT eT m'] show False by simp
    qed
  qed
  show "readArray_loop (Suc f) buf a L aT eT arr \<noteq> OutOfFuel" if le: "length buf + 1 \<le> Suc f"
  proof
    assume "readArray_loop (Suc f) buf a L aT eT arr = OutOfFuel"
    then show False
    proof (cases rule: readArray_loop_OutOfFuelE)
      case (ev et ename b2 T fv)
      with le IH(1) [of b2 T fv et] show False by simp
    next
      case (lp et ename b2 T fv n2 v b3 a' arr')
      with le readEvalue_shrinks [OF lp(2)] IH(7) [of b3 a' L aT eT arr'] show False by simp
    qed
  qed
qed

lemma fuel_enough_all: "fuel_enough_all f"
proof (induction f)
  case 0 show ?case by (simp add: fuel_enough_all_def)
next
  case (Suc f)
  then have IH:
    "\<And>buf T v et. length buf + 2 \<le> f \<Longrightarrow> readEvalue f buf T v et \<noteq> OutOfFuel"
    "\<And>buf sv. length buf + 1 \<le> f \<Longrightarrow> readStruct f buf sv \<noteq> OutOfFuel"
    "\<And>buf a L sv. length buf + 1 \<le> f \<Longrightarrow> readStruct_loop f buf a L sv \<noteq> OutOfFuel"
    "\<And>buf T mv. length buf + 1 \<le> f \<Longrightarrow> readMap f buf T mv \<noteq> OutOfFuel"
    "\<And>buf a L mT eT m. length buf + 1 \<le> f \<Longrightarrow> readMap_loop f buf a L mT eT m \<noteq> OutOfFuel"
    "\<And>buf T av. length buf + 1 \<le> f \<Longrightarrow> readArray f buf T av \<noteq> OutOfFuel"
    "\<And>buf a L aT eT arr. length buf + 1 \<le> f
          \<Longrightarrow> readArray_loop f buf a L aT eT arr \<noteq> OutOfFuel"
    unfolding fuel_enough_all_def by simp_all
  note st = fuel_enough_step [of f, OF IH]
  show ?case unfolding fuel_enough_all_def
    by (intro conjI allI impI) (rule st; assumption)+
qed

lemma fuel_enough:
  "length buf < f \<Longrightarrow> readStruct f buf sv \<noteq> OutOfFuel"
  "length buf < f \<Longrightarrow> readMap f buf T mv \<noteq> OutOfFuel"
  using fuel_enough_all [of f] unfolding fuel_enough_all_def by simp_all

lemma unmarshalInto_never_OutOfFuel: "unmarshalInto marshalled T v \<noteq> OutOfFuel"
  using fuel_enough(1) [of marshalled "Suc (length marshalled)" v]
    fuel_enough(2) [of marshalled "Suc (length marshalled)" T v]
  by (auto simp: unmarshalInto_def andThen_OutOfFuel_iff simp del: readStruct.simps readMap.simps)

lemma Unmarshal_never_OutOfFuel: "Unmarshal marshalled ptr \<noteq> OutOfFuel"
  by (cases ptr) (simp_all add: unmarshalInto_never_OutOfFuel)


section \<open>Map and slice targets are rebuilt\<close>

text \<open>
  \<^verbatim>\<open>readMap\<close> and \<^verbatim>\<open>readArray\<close> store a fresh \<^verbatim>\<open>reflect.MakeMap\<close> or
  \<^verbatim>\<open>reflect.MakeSlice\<close> value in the target right after the length prefix has been read, and
  every element is decoded into a temporary variable before it is added.  In the model the
  value held by the target is therefore only tested for being a valid \<^verbatim>\<open>reflect.Value\<close>; the
  container the loop fills is \<^const>\<open>MakeMap\<close> or \<^const>\<open>MakeSlice\<close> of the target's type.
\<close>

lemma readMap_loop_keeps_map:
  "readMap_loop f buf a L mT eT (VMap kt et es) = Ok (n, v, rest) \<Longrightarrow> \<exists>es'. v = VMap kt et es'"
proof (induction f arbitrary: buf a es)
  case 0 then show ?case by simp
next
  case (Suc f)
  from Suc.prems show ?case
  proof (cases rule: readMap_loop_OkE)
    case fin then show ?thesis by simp
  next
    case (elem et' ename b2 tT tmp n2 v2 b3 m')
    from elem(6) have "m' = VMap kt et (AList.update ename v2 es)" by simp
    with elem(7) Suc.IH show ?thesis by blast
  qed
qed

lemma readArray_loop_keeps_slice:
  "readArray_loop f buf a L aT eT (VSlice et xs) = Ok (n, v, rest) \<Longrightarrow> \<exists>xs'. v = VSlice et xs'"
proof (induction f arbitrary: buf a xs)
  case 0 then show ?case by simp
next
  case (Suc f)
  from Suc.prems show ?case
  proof (cases rule: readArray_loop_OkE)
    case fin then show ?thesis by simp
  next
    case (elem et' ename b2 tT tmp n2 v2 b3 arr')
    from elem(6) have "arr' = VSlice et (xs @ [v2])" by simp
    with elem(7) Suc.IH show ?thesis by blast
  qed
qed

lemma readArray_loop_keeps_bytes:
  "readArray_loop f buf a L aT eT (VBytes []) = Ok (n, v, rest) \<Longrightarrow> v = VBytes []"
proof (cases f)
  case 0
  assume "readArray_loop f buf a L aT eT (VBytes []) = Ok (n, v, rest)"
  with 0 show ?thesis by simp
next
  case (Suc f')
  assume "readArray_loop f buf a L aT eT (VBytes []) = Ok (n, v, rest)"
  then show ?thesis unfolding Suc
    by (cases rule: readArray_loop_OkE) simp_all
qed

lemma readMap_rebuilds:
  assumes "mv \<noteq> VNil" "mv' \<noteq> VNil"
  shows "readMap fuel buffer T mv = readMap fuel buffer T mv'"
proof (cases fuel)
  case 0 then show ?thesis by simp
next
  case (Suc f)
  show ?thesis unfolding Suc readMap.simps(2)
    using assms by (simp only: if_False split_def)
qed

lemma readArray_rebuilds:
  assumes "av \<noteq> VNil" "av' \<noteq> VNil"
  shows "readArray fuel buffer T av = readArray fuel buffer T av'"
proof (cases fuel)
  case 0 then show ?thesis by simp
next
  case (Suc f)
  show ?thesis unfolding Suc readArray.simps(2)
    using assms by (simp only: if_False split_def)
qed

lemma readMap_result:
  assumes "readMap fuel buffer T mv = Ok (n, v, rest)"
  shows "\<exists>kt et es. T = TMap kt et \<and> v = VMap kt et es"
proof (cases fuel)
  case 0 with assms show ?thesis by simp
next
  case (Suc f)
  with assms obtain c b1 kt et where "T = TMap kt et"
    "readMap_loop f b1 4 (fromLittleEndian c) T et (VMap kt et []) = Ok (n, v, rest)"
    unfolding Suc readMap_Ok_iff by blast
  with readMap_loop_keeps_map show ?thesis by blast
qed

lemma readArray_result:
  assumes "readArray fuel buffer T av = Ok (n, v, rest)"
  shows "\<exists>et xs. T = TSlice et \<and> (v = VSlice et xs \<or> v = VBytes [])"
proof (cases fuel)
  case 0 with assms show ?thesis by simp
next
  case (Suc f)
  with assms obtain c b1 et where T: "T = TSlice et"
    and l: "readArray_loop f b1 4 (fromLittleEndian c) T et
       (if et = TUint8 then VBytes [] else VSlice et []) = Ok (n, v, rest)"
    unfolding Suc readArray_Ok_iff by blast
  show ?thesis
  proof (cases "et = TUint8")
    case True
    with l readArray_loop_keeps_bytes have "v = VBytes []" by simp
    with T show ?thesis by blast
  next
    case False
    with l readArray_loop_keeps_slice [of f b1 4 "fromLittleEndian c" T et et "[]" n v rest]
    obtain xs where "v = VSlice et xs" by auto
    with T show ?thesis by blast
  qed
qed

lemma readEvalue_rebuilds:
  assumes "old \<noteq> VNil" "old' \<noteq> VNil" "kind_of T \<noteq> KStruct"
  shows "readEvalue fuel buffer T old et = readEvalue fuel buffer T old' et"
proof (cases fuel)
  case 0 then show ?thesis by simp
next
  case (Suc f)
  show ?thesis unfolding Suc readEvalue.simps(2)
    using assms(3) readMap_rebuilds [OF assms(1,2)] readArray_rebuilds [OF assms(1,2)]
    by (simp only: if_False)
qed

text \<open>
  Claim C10.  A map or slice target is rebuilt and never merged into.  The outcome of
  \<^const>\<open>readMap\<close> and of \<^const>\<open>readArray\<close> is the same for any two targets \<open>old\<close> and \<open>old'\<close> of
  the type \<open>T\<close>, whatever they held: a nil map and a map with entries, a nil slice and a slice
  with elements.  So an entry or element of the result comes from the wire document.  A
  successful call returns a non-nil container, \<^const>\<open>VMap\<close> for a map, \<^const>\<open>VSlice\<close> or
  \<^const>\<open>VBytes\<close> for a slice.  The same independence holds for \<^const>\<open>readEvalue\<close> at every target that
  is not a struct (a map or a slice that is a struct field), and for \<^const>\<open>Unmarshal\<close> at a
  pointer to a map.  The model returns the target only from a successful call; what a failed
  call leaves in the target is not part of it.
\<close>

theorem decode_rebuilds_maps_and_slices:
  assumes "old \<noteq> VNil" and "old' \<noteq> VNil"
  shows "readMap fuel buffer T old = readMap fuel buffer T old'
       \<and> readArray fuel buffer T old = readArray fuel buffer T old'
       \<and> (readMap fuel buffer T old = Ok (n, v, rest)
            \<longrightarrow> (\<exists>kt et es. T = TMap kt et \<and> v = VMap kt et es))
       \<and> (readArray fuel buffer T old = Ok (n, v, rest)
            \<longrightarrow> (\<exists>et xs. T = TSlice et \<and> (v = VSlice et xs \<or> v = VBytes [])))
       \<and> (kind_of T \<noteq> KStruct \<longrightarrow>
            readEvalue fuel buffer T old ety = readEvalue fuel buffer T old' ety)
       \<and> (kind_of T = KMap \<longrightarrow>
            Unmarshal buffer (VPtr T old) = Unmarshal buffer (VPtr T old'))"
  using readMap_rebuilds [OF assms] readArray_rebuilds [OF assms] readMap_result readArray_result
    readEvalue_rebuilds [OF assms]
  by (auto simp: unmarshalInto_def simp del: readMap.simps readStruct.simps readArray.simps readEvalue.simps)

theorem decode_rebuilds_maps_and_slices_witness:
  "readMap (Suc (Suc 0)) [5, 0, 0, 0, 0] (TMap TString TInt32) (VMap TString TInt32 [([0x61], VInt32 1)])
     = Ok (5, VMap TString TInt32 [], [])
   \<and> readMap (Suc (Suc 0)) [5, 0, 0, 0, 0] (TMap TString TInt32) (VMapNil TString TInt32)
     = Ok (5, VMap TString TInt32 [], [])
   \<and> readArray (Suc (Suc 0)) [5, 0, 0, 0, 0] (TSlice TInt32) (VSlice TInt32 [VInt32 7])
     = Ok (5, VSlice TInt32 [], [])
   \<and> readArray (Suc (Suc 0)) [5, 0, 0, 0, 0] (TSlice TInt32) (VSliceNil TInt32)
     = Ok (5, VSlice TInt32 [], [])
   \<and> Unmarshal [5, 0, 0, 0, 0] (VPtr (TMap TString TInt32) (VMap TString TInt32 [([0x61], VInt32 1)]))
     = Ok (VMap TString TInt32 [])"
  using decode_rebuilds_maps_and_slices [where old = "VMap TString TInt32 [([0x61], VInt32 1)]"
      and old' = "VMapNil TString TInt32" and fuel = "Suc (Suc 0)" and buffer = "[5, 0, 0, 0, 0]"
      and T = "TMap TString TInt32" and n = 5 and v = "VMap TString TInt32 []" and rest = "[]"
      and ety = kEtypeDocument]
    decode_rebuilds_maps_and_slices [where old = "VSlice TInt32 [VInt32 7]"
      and old' = "VSliceNil TInt32" and fuel = "Suc (Suc 0)" and buffer = "[5, 0, 0, 0, 0]"
      and T = "TSlice TInt32" and n = 5 and v = "VSlice TInt32 []" and rest = "[]"
      and ety = kEtypeArray]
  by (simp add: dec_eval)

section \<open>Length accounting in the decoder\<close>

text \<open>
  The loops of \<^verbatim>\<open>readStruct\<close>, \<^verbatim>\<open>readMap\<close> and \<^verbatim>\<open>readArray\<close> compare
  \<^verbatim>\<open>actualSize\<close> with \<^verbatim>\<open>expectedSize\<close> only at the done tag, so a loop that succeeds
  for one declared length reaches the same done tag, with the same count, for any other.
\<close>

lemma readStruct_loop_relabel:
  "readStruct_loop f buf a L sv = Ok (n, v, rest)
   \<Longrightarrow> readStruct_loop f buf a L' sv
         = (if n \<noteq> sint L' then Err (SizeMismatch L' n) else Ok (n, v, rest))"
proof (induction f arbitrary: buf a sv)
  case 0 then show ?case by simp
next
  case (Suc f)
  from Suc.prems show ?case
  proof (cases rule: readStruct_loop_OkE)
    case fin
    show ?thesis unfolding fin(1,3,4) by (rule readStruct_loop_fin)
  next
    case (elem et ename b2 i T fv n2 v2 b3)
    show ?thesis unfolding elem(2) readStruct_loop_elem [OF elem(1,3,4,5)]
      by (rule Suc.IH [OF elem(6)])
  qed
qed

lemma readMap_loop_relabel:
  "readMap_loop f buf a L mT eT m = Ok (n, v, rest)
   \<Longrightarrow> readMap_loop f buf a L' mT eT m
         = (if n \<noteq> sint L' then Err (SizeMismatch L' n) else Ok (n, v, rest))"
proof (induction f arbitrary: buf a m)
  case 0 then show ?case by simp
next
  case (Suc f)
  from Suc.prems show ?case
  proof (cases rule: readMap_loop_OkE)
    case fin
    show ?thesis unfolding fin(1,3,4) by (rule readMap_loop_fin)
  next
    case (elem et ename b2 tT tmp n2 v2 b3 m')
    show ?thesis unfolding elem(2) readMap_loop_elem [OF elem(1,3,4,5,6)]
      by (rule Suc.IH [OF elem(7)])
  qed
qed

lemma readArray_loop_relabel:
  "readArray_loop f buf a L aT eT arr = Ok (n, v, rest)
   \<Longrightarrow> readArray_loop f buf a L' aT eT arr
         = (if n \<noteq> sint L' then Err (SizeMismatch L' n) else Ok (n, v, rest))"
proof (induction f arbitrary: buf a arr)
  case 0 then show ?case by simp
next
  case (Suc f)
  from Suc.prems show ?case
  proof (cases rule: readArray_loop_OkE)
    case fin
    show ?thesis unfolding fin(1,3,4) by (rule readArray_loop_fin)
  next
    case (elem et ename b2 tT tmp n2 v2 b3 arr')
    show ?thesis unfolding elem(2) readArray_loop_elem [OF elem(1,3,4,5,6)]
      by (rule Suc.IH [OF elem(7)])
  qed
qed

lemma loop_count:
  "readStruct_loop f buf a L sv = Ok (n, v, rest) \<Longrightarrow> n = sint L"
  "readMap_loop f buf a L mT eT m = Ok (n, v, rest) \<Longrightarrow> n = sint L"
  "readArray_loop f buf a L aT eT arr = Ok (n, v, rest) \<Longrightarrow> n = sint L"
  using readStruct_loop_relabel [of f buf a L sv n v rest L]
    readMap_loop_relabel [of f buf a L mT eT m n v rest L]
    readArray_loop_relabel [of f buf a L aT eT arr n v rest L]
  by (auto split: if_splits)

text \<open>
  A reader of documents, as a function of the fuel and the buffer, accounts for its
  length prefix when every successful read of a buffer \<open>c4 @ body\<close> with a four-byte
  prefix \<open>c4\<close> returns the declared length as its count, has consumed a prefix of \<open>body\<close>
  that ends with the done tag, returns the number of bytes of the prefix and of that part
  of the body whenever this is less than \<open>2^31\<close>, and fails with the size mismatch on the same
  body behind any prefix that declares another length.
\<close>

definition accounted ::
  "(nat \<Rightarrow> bytes \<Rightarrow> (int \<times> gval \<times> bytes) result) \<Rightarrow> bool"
where
  "accounted rd \<longleftrightarrow>
     (\<forall>f c4 body n v rest. length c4 = 4 \<longrightarrow> rd f (c4 @ body) = Ok (n, v, rest) \<longrightarrow>
        n = sint (fromLittleEndian c4 :: 32 word)
      \<and> (\<exists>c. body = c @ rest \<and> c \<noteq> [] \<and> last c = 0
             \<and> (length c + 4 < 2 ^ 31 \<longrightarrow> n = int (length c + 4)))
      \<and> (\<forall>c4'. length c4' = 4 \<longrightarrow>
            rd f (c4' @ body)
              = (if n \<noteq> sint (fromLittleEndian c4' :: 32 word)
                 then Err (SizeMismatch (fromLittleEndian c4') n) else Ok (n, v, rest))))"


lemma readEvalue_split:
  assumes "readEvalue f b2 T tv et = Ok (n2, v, b3)"
  obtains c2 where "b2 = c2 @ b3"
  using frame_allD(1) [OF frame_all assms] unfolding framed_def by blast

lemma readStruct_loop_last:
  "readStruct_loop f buf a L sv = Ok (n, v, rest)
   \<Longrightarrow> \<exists>c. buf = c @ rest \<and> c \<noteq> [] \<and> last c = 0"
proof (induction f arbitrary: buf a sv)
  case 0 then show ?case by simp
next
  case (Suc f)
  from Suc.prems show ?case
  proof (cases rule: readStruct_loop_OkE)
    case fin
    then have "buf = [0] @ rest \<and> [0::byte] \<noteq> [] \<and> last [0::byte] = 0" by simp
    then show ?thesis by blast
  next
    case (elem et ename b2 i T fv n2 v2 b3)
    from elem(5) obtain c2 where c2: "b2 = c2 @ b3" by (rule readEvalue_split)
    from Suc.IH [OF elem(6)] obtain c3 where c3: "b3 = c3 @ rest" "c3 \<noteq> []" "last c3 = 0"
      by blast
    have "buf = (et # ename @ 0 # c2 @ c3) @ rest \<and> et # ename @ 0 # c2 @ c3 \<noteq> []
        \<and> last (et # ename @ 0 # c2 @ c3) = 0"
      using elem(2) c2 c3 by simp
    then show ?thesis by blast
  qed
qed

lemma readMap_loop_last:
  "readMap_loop f buf a L mT eT m = Ok (n, v, rest)
   \<Longrightarrow> \<exists>c. buf = c @ rest \<and> c \<noteq> [] \<and> last c = 0"
proof (induction f arbitrary: buf a m)
  case 0 then show ?case by simp
next
  case (Suc f)
  from Suc.prems show ?case
  proof (cases rule: readMap_loop_OkE)
    case fin
    then have "buf = [0] @ rest \<and> [0::byte] \<noteq> [] \<and> last [0::byte] = 0" by simp
    then show ?thesis by blast
  next
    case (elem et ename b2 tT tmp n2 v2 b3 m')
    from elem(5) obtain c2 where c2: "b2 = c2 @ b3" by (rule readEvalue_split)
    from Suc.IH [OF elem(7)] obtain c3 where c3: "b3 = c3 @ rest" "c3 \<noteq> []" "last c3 = 0"
      by blast
    have "buf = (et # ename @ 0 # c2 @ c3) @ rest \<and> et # ename @ 0 # c2 @ c3 \<noteq> []
        \<and> last (et # ename @ 0 # c2 @ c3) = 0"
      using elem(2) c2 c3 by simp
    then show ?thesis by blast
  qed
qed

lemma readArray_loop_last:
  "readArray_loop f buf a L aT eT arr = Ok (n, v, rest)
   \<Longrightarrow> \<exists>c. buf = c @ rest \<and> c \<noteq> [] \<and> last c = 0"
proof (induction f arbitrary: buf a arr)
  case 0 then show ?case by simp
next
  case (Suc f)
  from Suc.prems show ?case
  proof (cases rule: readArray_loop_OkE)
    case fin
    then have "buf = [0] @ rest \<and> [0::byte] \<noteq> [] \<and> last [0::byte] = 0" by simp
    then show ?thesis by blast
  next
    case (elem et ename b2 tT tmp n2 v2 b3 arr')
    from elem(5) obtain c2 where c2: "b2 = c2 @ b3" by (rule readEvalue_split)
    from Suc.IH [OF elem(7)] obtain c3 where c3: "b3 = c3 @ rest" "c3 \<noteq> []" "last c3 = 0"
      by blast
    have "buf = (et # ename @ 0 # c2 @ c3) @ rest \<and> et # ename @ 0 # c2 @ c3 \<noteq> []
        \<and> last (et # ename @ 0 # c2 @ c3) = 0"
      using elem(2) c2 c3 by simp
    then show ?thesis by blast
  qed
qed

lemma accountedI:
  assumes step: "\<And>f c4 body. length c4 = 4
                  \<Longrightarrow> rd (Suc f) (c4 @ body) = lp f body (fromLittleEndian c4)"
    and zero: "\<And>buf. rd 0 buf = OutOfFuel"
    and relabel: "\<And>f buf L n v rest L'. lp f buf L = Ok (n, v, rest)
         \<Longrightarrow> lp f buf L' = (if n \<noteq> sint L' then Err (SizeMismatch L' n) else Ok (n, v, rest))"
    and frm: "\<And>f buf L n v rest. lp f buf L = Ok (n, v, rest)
         \<Longrightarrow> framed (\<lambda>fu b. lp fu b L) f 4 buf n v rest"
    and lst: "\<And>f buf L n v rest. lp f buf L = Ok (n, v, rest)
         \<Longrightarrow> \<exists>c. buf = c @ rest \<and> c \<noteq> [] \<and> last c = 0"
  shows "accounted rd"
  unfolding accounted_def
proof (intro allI impI)
  fix f c4 body n v rest
  assume len: "length c4 = 4" and ok: "rd f (c4 @ body) = Ok (n, v, rest)"
  from ok zero obtain g where f: "f = Suc g" by (cases f) auto
  from step [OF len] ok
  have lp: "lp g body (fromLittleEndian c4) = Ok (n, v, rest)" by (simp add: f)
  have n: "n = sint (fromLittleEndian c4 :: 32 word)"
    using relabel [OF lp, of "fromLittleEndian c4"] lp by (auto split: if_splits)
  from lst [OF lp] obtain c where c: "body = c @ rest" "c \<noteq> []" "last c = 0" by blast
  from frm [OF lp] obtain c' where c': "body = c' @ rest"
    "length c' < 2 ^ 31 \<longrightarrow> n = 4 + int (length c')"
    unfolding framed_def by blast
  from c(1) c'(1) have "c' = c" by simp
  with c' have cnt: "length c + 4 < 2 ^ 31 \<longrightarrow> n = int (length c + 4)" by auto
  have rl: "rd f (c4' @ body)
              = (if n \<noteq> sint (fromLittleEndian c4' :: 32 word)
                 then Err (SizeMismatch (fromLittleEndian c4') n) else Ok (n, v, rest))"
    if "length c4' = 4" for c4'
    unfolding f step [OF that] by (rule relabel [OF lp])
  show "n = sint (fromLittleEndian c4 :: 32 word)
      \<and> (\<exists>c. body = c @ rest \<and> c \<noteq> [] \<and> last c = 0
             \<and> (length c + 4 < 2 ^ 31 \<longrightarrow> n = int (length c + 4)))
      \<and> (\<forall>c4'. length c4' = 4 \<longrightarrow>
            rd f (c4' @ body)
              = (if n \<noteq> sint (fromLittleEndian c4' :: 32 word)
                 then Err (SizeMismatch (fromLittleEndian c4') n) else Ok (n, v, rest)))"
    using n c cnt rl by blast
qed

lemma accounted_readStruct: "accounted (\<lambda>f b. readStruct f b sv)"
proof (rule accountedI [where lp = "\<lambda>f b L. readStruct_loop f b 4 L sv"])
  show "readStruct (Suc f) (c4 @ body) sv = readStruct_loop f body 4 (fromLittleEndian c4) sv"
    if "length c4 = 4" for f c4 body
    using that by (simp add: readInt32_append)
qed (simp, erule readStruct_loop_relabel, erule frame_allD(3) [OF frame_all],
      erule readStruct_loop_last)

lemma accounted_never:
  assumes "\<And>f buf r. rd f buf \<noteq> Ok r"
  shows "accounted rd"
  unfolding accounted_def using assms by simp

lemma accounted_readMap: "accounted (\<lambda>f b. readMap f b T mv)"
proof (cases "\<exists>kt et. T = TMap kt et \<and> kind_of kt = KString \<and> mv \<noteq> VNil")
  case True
  then obtain kt et where T: "T = TMap kt et" "kind_of kt = KString" "mv \<noteq> VNil" by blast
  show ?thesis
  proof (rule accountedI [where lp = "\<lambda>f b L. readMap_loop f b 4 L T et (VMap kt et [])"])
    show "readMap (Suc f) (c4 @ body) T mv
            = readMap_loop f body 4 (fromLittleEndian c4) T et (VMap kt et [])"
      if "length c4 = 4" for f c4 body
      unfolding readMap.simps(2) using that T(2,3) by (simp add: T(1) readInt32_append)
  qed (simp, erule readMap_loop_relabel, erule frame_allD(5) [OF frame_all],
      erule readMap_loop_last)
next
  case False
  show ?thesis
  proof (rule accounted_never)
    show "readMap f buf T mv \<noteq> Ok r" for f buf r
    proof (cases f)
      case 0 then show ?thesis by simp
    next
      case (Suc g) show ?thesis unfolding Suc readMap_Ok_iff using False by blast
    qed
  qed
qed

lemma accounted_readArray: "accounted (\<lambda>f b. readArray f b T av)"
proof (cases "\<exists>et. T = TSlice et \<and> av \<noteq> VNil")
  case True
  then obtain et where T: "T = TSlice et" "av \<noteq> VNil" by blast
  show ?thesis
  proof (rule accountedI [where lp = "\<lambda>f b L. readArray_loop f b 4 L T et
                                        (if et = TUint8 then VBytes [] else VSlice et [])"])
    show "readArray (Suc f) (c4 @ body) T av
            = readArray_loop f body 4 (fromLittleEndian c4) T et
                (if et = TUint8 then VBytes [] else VSlice et [])"
      if "length c4 = 4" for f c4 body
      unfolding readArray.simps(2) using that T(2) by (simp add: T(1) readInt32_append)
  qed (simp, erule readArray_loop_relabel, erule frame_allD(7) [OF frame_all],
      erule readArray_loop_last)
next
  case False
  show ?thesis
  proof (rule accounted_never)
    show "readArray f buf T av \<noteq> Ok r" for f buf r
    proof (cases f)
      case 0 then show ?thesis by simp
    next
      case (Suc g) show ?thesis unfolding Suc readArray_Ok_iff using False by blast
    qed
  qed
qed

text \<open>
  The count comes from the counts of the element readers, and \<^verbatim>\<open>readEstring\<close> returns
  \<^verbatim>\<open>int(sizeWithNullterm) + kInt32Size\<close> after reading \<^verbatim>\<open>sizeWithNullterm-1\<close> bytes, a
  subtraction in \<^verbatim>\<open>int32\<close>.  For the size field \<open>0x80000000\<close> the subtraction wraps to
  \<open>2147483647\<close>, so the string reader consumes \<open>2^31 + 4\<close> bytes and reports \<open>4 - 2^31\<close>.
\<close>

definition big_string :: bytes where
  "big_string = replicate 2147483647 0x41"

lemma length_big_string: "length big_string = 2147483647"
  unfolding big_string_def by (rule length_replicate)

definition big_target :: gval where
  "big_target = VStruct [([0x41], TString)] [VString []]"

definition big_document :: bytes where
  "big_document = [0x0C, 0, 0, 0x80] @ [2, 0x41, 0] @ [0, 0, 0, 0x80] @ big_string @ [0, 0]"

lemma length_big_document: "length big_document = 2147483660"
  by (simp add: big_document_def length_big_string)

lemma readEstring_big:
  "readEstring ([0, 0, 0, 0x80] @ big_string @ 0 # r) = Ok (- 2147483644, big_string, r)"
  unfolding readEstring_Ok_iff
  by (rule exI [where x = "[0, 0, 0, 0x80]"]) (simp add: length_big_string)

lemma readStruct_big:
  "readStruct (Suc (Suc (Suc 0))) big_document big_target
     = Ok (- 2147483636, VStruct [([0x41], TString)] [VString big_string], [])"
proof -
  have ev: "readEvalue (Suc 0) ([0, 0, 0, 0x80] @ big_string @ 0 # [0]) TString (VString []) 2
              = Ok (- 2147483644, VString big_string, [0])"
    by (simp add: readEstring_big del: append.simps)
  have sf: "structField big_target [0x41] 2 = Ok (0, TString, VString [])"
    by (simp add: big_target_def dec_eval)
  have "readStruct (Suc (Suc (Suc 0))) big_document big_target
          = readStruct_loop (Suc (Suc 0)) (2 # [0x41] @ 0 # ([0, 0, 0, 0x80] @ big_string @ 0 # [0]))
              4 (0x8000000C) big_target"
    unfolding big_document_def readStruct.simps
    by (subst readInt32_append) simp_all
  also have "\<dots> = readStruct_loop (Suc 0) [0] (4 + 1 + (int (length [0x41::byte]) + 1) + - 2147483644)
                      (0x8000000C) (setField big_target 0 (VString big_string))"
    by (rule readStruct_loop_elem [OF _ _ sf ev]) simp_all
  also have "\<dots> = Ok (- 2147483636, VStruct [([0x41], TString)] [VString big_string], [])"
    by (simp add: big_target_def)
  finally show ?thesis .
qed

text \<open>
  Claim C5.  At the done tag a document reader fails with the size mismatch unless the
  bytes consumed for the document are as many as its length prefix declares.  The
  document \<^const>\<open>big_document\<close> has \<open>2147483660\<close> bytes: the prefix \<open>0x8000000C\<close>, which
  declares \<open>-2147483636\<close>, one string element \<^verbatim>\<open>A\<close> with the size field \<open>0x80000000\<close>,
  \<open>2147483647\<close> bytes and a null byte, and the done tag.  \<^const>\<open>readStruct\<close> consumes all of it
  and succeeds with the count \<open>-2147483636\<close>, where the claim asks for the size mismatch;
  \<^const>\<open>Unmarshal\<close> then reports that \<open>-2147483636\<close> of \<open>2147483660\<close> bytes were consumed.
  For documents of fewer than \<open>2^31\<close> bytes the accounting is as the claim says, by
  \<open>accounted_readStruct\<close>, \<open>accounted_readMap\<close> and \<open>accounted_readArray\<close>.
\<close>

theorem length_accounting_negative_count:
  "length big_document = 2147483660
   \<and> readStruct (Suc (Suc (Suc 0))) big_document big_target
       = Ok (- 2147483636, VStruct [([0x41], TString)] [VString big_string], [])
   \<and> Unmarshal big_document (VPtr (TStruct [([0x41], TString)]) big_target)
       = Err (DidNotConsumeAll (- 2147483636) 2147483660)"
proof -
  have "below (readStruct (Suc (Suc (Suc 0))) big_document big_target)
          (readStruct (Suc (length big_document)) big_document big_target)"
    by (rule fuel_mono(1)) (simp add: length_big_document)
  then have "readStruct (Suc (length big_document)) big_document big_target
       = Ok (- 2147483636, VStruct [([0x41], TString)] [VString big_string], [])"
    unfolding below_def readStruct_big by simp
  then have "unmarshalInto big_document (TStruct [([0x41], TString)]) big_target
       = Err (DidNotConsumeAll (- 2147483636) 2147483660)"
    unfolding unmarshalInto_def by (simp add: length_big_document del: readStruct.simps)
  then show ?thesis
    using readStruct_big length_big_document by (simp del: readStruct.simps)
qed

section \<open>Exact consumption at the top level\<close>

text \<open>
  Without its last byte, a buffer that a loop consumed to the end stops the loop where it
  reads the next tag: \<^verbatim>\<open>ReadByte\<close> returns \<^verbatim>\<open>io.EOF\<close>.
\<close>

lemma readStruct_loop_truncate:
  "readStruct_loop f buf a L sv = Ok (n, v, [])
   \<Longrightarrow> readStruct_loop f (butlast buf) a L sv = Err EOF"
proof (induction f arbitrary: buf a sv)
  case 0 then show ?case by simp
next
  case (Suc f)
  from Suc.prems show ?case
  proof (cases rule: readStruct_loop_OkE)
    case fin
    then show ?thesis by simp
  next
    case (elem et ename b2 i T fv n2 v2 b3)
    from frame_allD(1) [OF frame_all elem(5)] obtain c2 where c2: "b2 = c2 @ b3"
      "\<And>rest'. readEvalue f (c2 @ rest') T fv et = Ok (n2, v2, rest')"
      unfolding framed_def by blast
    from readStruct_loop_last [OF elem(6)] have ne: "b3 \<noteq> []" by auto
    have "butlast buf = et # ename @ 0 # (c2 @ butlast b3)"
      using elem(2) c2(1) ne by (simp add: butlast_append)
    then show ?thesis
      using readStruct_loop_elem [OF elem(1,3,4) c2(2) [of "butlast b3"]] Suc.IH [OF elem(6)]
      by simp
  qed
qed

lemma readMap_loop_truncate:
  "readMap_loop f buf a L mT eT m = Ok (n, v, [])
   \<Longrightarrow> readMap_loop f (butlast buf) a L mT eT m = Err EOF"
proof (induction f arbitrary: buf a m)
  case 0 then show ?case by simp
next
  case (Suc f)
  from Suc.prems show ?case
  proof (cases rule: readMap_loop_OkE)
    case fin
    then show ?thesis by simp
  next
    case (elem et ename b2 tT tmp n2 v2 b3 m')
    from frame_allD(1) [OF frame_all elem(5)] obtain c2 where c2: "b2 = c2 @ b3"
      "\<And>rest'. readEvalue f (c2 @ rest') tT tmp et = Ok (n2, v2, rest')"
      unfolding framed_def by blast
    from readMap_loop_last [OF elem(7)] have ne: "b3 \<noteq> []" by auto
    have "butlast buf = et # ename @ 0 # (c2 @ butlast b3)"
      using elem(2) c2(1) ne by (simp add: butlast_append)
    then show ?thesis
      using readMap_loop_elem [OF elem(1,3,4) c2(2) [of "butlast b3"] elem(6)] Suc.IH [OF elem(7)]
      by simp
  qed
qed

text \<open>The read of the top-level document, as \<^const>\<open>unmarshalInto\<close> chooses it.\<close>

definition readTop :: "rtype \<Rightarrow> gval \<Rightarrow> nat \<Rightarrow> bytes \<Rightarrow> (int \<times> gval \<times> bytes) result" where
  "readTop T tv f buf =
     (if kind_of T = KStruct then readStruct f buf tv else readMap f buf T tv)"

lemma unmarshalInto_readTop:
  "unmarshalInto marshalled T tv =
     (if kind_of T \<noteq> KStruct \<and> kind_of T \<noteq> KMap
      then Err TopLevelNotMapOrStruct
      else andThen (wrapErr InUnmarshal (readTop T tv (Suc (length marshalled)) marshalled))
          (\<lambda>(numread, v', rest).
             if numread \<noteq> int (length marshalled)
             then Err (DidNotConsumeAll numread (length marshalled))
             else Ok v'))"
  by (simp add: unmarshalInto_def readTop_def del: readStruct.simps readMap.simps)

lemma accounted_readTop: "accounted (readTop T tv)"
  using accounted_readStruct [of tv] accounted_readMap [of T tv]
  by (cases "kind_of T = KStruct") (simp_all add: readTop_def [abs_def])

lemma readTop_framed:
  "readTop T tv f buf = Ok (n, v, rest) \<Longrightarrow> framed (readTop T tv) f 0 buf n v rest"
  using frame_allD(2) [OF frame_all, of f buf tv n v rest]
    frame_allD(4) [OF frame_all, of f buf T tv n v rest]
  by (cases "kind_of T = KStruct") (simp_all add: readTop_def [abs_def])

lemma readTop_mono: "f \<le> f' \<Longrightarrow> below (readTop T tv f buf) (readTop T tv f' buf)"
  using fuel_mono(1,2) by (simp add: readTop_def)

lemma readTop_fuel: "length buf < f \<Longrightarrow> readTop T tv f buf \<noteq> OutOfFuel"
  using fuel_enough by (simp add: readTop_def)

lemma readTop_truncate:
  assumes "readTop T tv (Suc f) buf = Ok (n, v, [])"
  shows "readTop T tv (Suc f) (butlast buf) = Err EOF"
proof (cases "kind_of T = KStruct")
  case True
  with assms have "readStruct (Suc f) buf tv = Ok (n, v, [])" by (simp add: readTop_def)
  then obtain c b1 where c: "buf = c @ b1" "length c = 4"
    "readStruct_loop f b1 4 (fromLittleEndian c) tv = Ok (n, v, [])"
    unfolding readStruct_Ok_iff by blast
  from readStruct_loop_last [OF c(3)] have "b1 \<noteq> []" by auto
  then have "butlast buf = c @ butlast b1" using c(1) by (simp add: butlast_append)
  then show ?thesis
    using True readStruct_loop_truncate [OF c(3)] c(2)
    by (simp add: readTop_def readInt32_append)
next
  case False
  with assms have "readMap (Suc f) buf T tv = Ok (n, v, [])" by (simp add: readTop_def)
  then obtain c b1 kt et where c: "buf = c @ b1" "length c = 4" "T = TMap kt et"
    "kind_of kt = KString" "tv \<noteq> VNil"
    "readMap_loop f b1 4 (fromLittleEndian c) T et (VMap kt et []) = Ok (n, v, [])"
    unfolding readMap_Ok_iff by blast
  from readMap_loop_last [OF c(6)] have "b1 \<noteq> []" by auto
  then have "butlast buf = c @ butlast b1" using c(1) by (simp add: butlast_append)
  then show ?thesis
    using False readMap_loop_truncate [OF c(6)] c(2,3,4,5)
    by (simp add: readTop_def readInt32_append)
qed

lemma unmarshalInto_OkD:
  assumes "unmarshalInto B T tv = Ok v"
  shows "(kind_of T = KStruct \<or> kind_of T = KMap)
       \<and> readTop T tv (Suc (length B)) B = Ok (int (length B), v, [])
       \<and> 5 \<le> length B \<and> length B < 2 ^ 31 \<and> last B = 0
       \<and> sint (fromLittleEndian (take 4 B) :: 32 word) = int (length B)"
proof -
  from assms have k: "kind_of T = KStruct \<or> kind_of T = KMap"
    by (auto simp: unmarshalInto_readTop split: if_splits)
  with assms obtain n rest where r: "readTop T tv (Suc (length B)) B = Ok (n, v, rest)"
    and n: "n = int (length B)"
    by (auto simp: unmarshalInto_readTop andThen_Ok_iff wrapErr_Ok_iff split: if_splits)
  from r obtain c4 body where B: "B = c4 @ body" "length c4 = 4"
    using k by (cases "kind_of T = KStruct")
      (auto simp: readTop_def readStruct_Ok_iff readMap_Ok_iff simp del: readStruct.simps readMap.simps)
  from accounted_readTop [of T tv, unfolded accounted_def, rule_format, OF B(2) r [unfolded B(1)]]
  obtain c where c: "n = sint (fromLittleEndian c4 :: 32 word)" "body = c @ rest" "c \<noteq> []"
    "last c = 0" "length c + 4 < 2 ^ 31 \<longrightarrow> n = int (length c + 4)"
    by blast
  have "sint (fromLittleEndian c4 :: 32 word) < 2 ^ 31"
    using sint_lt [of "fromLittleEndian c4 :: 32 word"] by simp
  with c(1) n have lt: "length B < 2 ^ 31" by simp
  with B c(2) have "length c + 4 < 2 ^ 31" by simp
  with c(5) n B c(2) have rest: "rest = []" by simp
  have "take 4 B = c4" using B by simp
  moreover have "last B = 0" using B c(2,3,4) rest by simp
  moreover have "5 \<le> length B" using B c(2,3) by (cases c) simp_all
  ultimately show ?thesis using k r n rest lt c(1) by simp
qed

text \<open>
  Claim C4.  Let \<open>B\<close> be an input that \<^const>\<open>Unmarshal\<close> decodes into the target \<open>ptr\<close>.  Then
  \<open>B\<close> followed by any byte \<open>x\<close> is rejected because not all bytes were consumed, only
  \<open>length B\<close> of \<open>length B + 1\<close>; \<open>B\<close> without its last byte is rejected with \<^verbatim>\<open>io.EOF\<close>;
  and the top-level document is the whole input: \<open>B\<close> ends with the done tag and its
  length prefix declares \<open>length B\<close>.
\<close>

theorem exact_consumption:
  assumes "Unmarshal B ptr = Ok v"
  shows "Unmarshal (B @ [x]) ptr = Err (DidNotConsumeAll (int (length B)) (length B + 1))
       \<and> Unmarshal (butlast B) ptr = Err (InUnmarshal EOF)
       \<and> 5 \<le> length B \<and> last B = 0
       \<and> sint (fromLittleEndian (take 4 B) :: 32 word) = int (length B)"
proof -
  from assms obtain T tv where u: "unmarshalInto B T tv = Ok v"
    and eq: "\<And>m. Unmarshal m ptr = unmarshalInto m T tv"
    by (cases ptr) auto
  note d = unmarshalInto_OkD [OF u]
  from d have k: "kind_of T = KStruct \<or> kind_of T = KMap"
    and r: "readTop T tv (Suc (length B)) B = Ok (int (length B), v, [])" by simp_all
  from readTop_framed [OF r] have fr:
    "\<And>f' rest'. Suc (length B) \<le> f' \<Longrightarrow> readTop T tv f' (B @ rest') = Ok (int (length B), v, rest')"
    unfolding framed_def by auto
  have 1: "unmarshalInto (B @ [x]) T tv = Err (DidNotConsumeAll (int (length B)) (length B + 1))"
    using k fr [of "Suc (length (B @ [x]))" "[x]"]
    by (simp add: unmarshalInto_readTop)
  from d have ne: "B \<noteq> []" by auto
  have tr: "readTop T tv (Suc (length B)) (butlast B) = Err EOF"
    by (rule readTop_truncate [OF r])
  have "readTop T tv (length B) (butlast B) \<noteq> OutOfFuel"
    using ne by (intro readTop_fuel) simp
  with readTop_mono [of "length B" "Suc (length B)" T tv "butlast B"] tr
  have "readTop T tv (length B) (butlast B) = Err EOF" by (simp add: below_def)
  moreover have "Suc (length (butlast B)) = length B" using ne by simp
  ultimately have 2: "unmarshalInto (butlast B) T tv = Err (InUnmarshal EOF)"
    using k by (simp add: unmarshalInto_readTop)
  from 1 2 d show ?thesis by (simp add: eq)
qed

theorem exact_consumption_witness:
  "Unmarshal [12, 0, 0, 0, 16, 0x41, 0, 1, 0, 0, 0, 0]
       (VPtr (TStruct [([0x41], TInt32)]) (VStruct [([0x41], TInt32)] [VInt32 0]))
     = Ok (VStruct [([0x41], TInt32)] [VInt32 1])
   \<and> Unmarshal ([12, 0, 0, 0, 16, 0x41, 0, 1, 0, 0, 0, 0] @ [7])
       (VPtr (TStruct [([0x41], TInt32)]) (VStruct [([0x41], TInt32)] [VInt32 0]))
     = Err (DidNotConsumeAll 12 13)
   \<and> Unmarshal [12, 0, 0, 0, 16, 0x41, 0, 1, 0, 0, 0]
       (VPtr (TStruct [([0x41], TInt32)]) (VStruct [([0x41], TInt32)] [VInt32 0]))
     = Err (InUnmarshal EOF)"
  using exact_consumption [where B = "[12, 0, 0, 0, 16, 0x41, 0, 1, 0, 0, 0, 0]"
      and ptr = "VPtr (TStruct [([0x41], TInt32)]) (VStruct [([0x41], TInt32)] [VInt32 0])"
      and v = "VStruct [([0x41], TInt32)] [VInt32 1]" and x = 7]
  by (simp add: dec_eval)

end
